theory Spec2Isabelle
  imports Main "HOL-Library.Word" "HOL-Library.Sublist"
begin

unbundle bit_operations_syntax

section \<open>Data model (types.ts)\<close>

text \<open>
  Strings of the program are modelled as lists of 8-bit characters. The documents, paths
  and attribute lists considered are ASCII text, where a JavaScript code unit and a byte
  of the UTF-8 encoding coincide.
\<close>

datatype EdgeType = Link | Include | IncludePartial

record Edge =
  source :: string
  target :: string
  etype :: EdgeType

record Node =
  nid :: string
  path :: string
  label :: string

record Graph =
  nodes :: "Node list"
  edges :: "Edge list"

record AsciidocLink =
  ltarget :: string
  ltype :: EdgeType

section \<open>The JavaScript and Node.js primitives the program calls\<close>

text \<open>
  \<open>trim\<close> removes white space at both ends; \<open>isWordChar\<close> is the class \<^verbatim>\<open>\w\<close> of
  regular expressions; \<open>splitOn\<close> and \<open>join\<close> are \<^verbatim>\<open>String.split\<close> on a one-character
  separator and \<^verbatim>\<open>Array.join\<close>; \<open>findIndex\<close> is \<^verbatim>\<open>Array.findIndex\<close>, with \<open>None\<close> for
  the result \<^verbatim>\<open>-1\<close>; \<open>spliceOut i\<close> is \<^verbatim>\<open>splice(i, 1)\<close>.
\<close>

definition isSpace :: "char \<Rightarrow> bool" where
  "isSpace c = (c \<in> {CHR '' '', CHR 0x09, CHR 0x0A, CHR 0x0B, CHR 0x0C, CHR 0x0D})"

definition trim :: "string \<Rightarrow> string" where
  "trim s = rev (dropWhile isSpace (rev (dropWhile isSpace s)))"

definition isWordChar :: "char \<Rightarrow> bool" where
  "isWordChar c =
     (let n = (of_char c :: nat)
      in (48 \<le> n \<and> n \<le> 57) \<or> (65 \<le> n \<and> n \<le> 90) \<or> n = 95 \<or> (97 \<le> n \<and> n \<le> 122))"

definition startsWith :: "string \<Rightarrow> string \<Rightarrow> bool" where
  "startsWith s p = (take (length p) s = p)"

definition endsWith :: "string \<Rightarrow> string \<Rightarrow> bool" where
  "endsWith s p = (length p \<le> length s \<and> drop (length s - length p) s = p)"

fun splitOn :: "(char \<Rightarrow> bool) \<Rightarrow> string \<Rightarrow> string list" where
  "splitOn P [] = [[]]"
| "splitOn P (c # cs) =
     (if P c then [] # splitOn P cs
      else (case splitOn P cs of [] \<Rightarrow> [[c]] | l # ls \<Rightarrow> (c # l) # ls))"

fun join :: "string \<Rightarrow> string list \<Rightarrow> string" where
  "join s [] = []"
| "join s [x] = x"
| "join s (x # y # ys) = x @ s @ join s (y # ys)"

fun findIndex :: "('a \<Rightarrow> bool) \<Rightarrow> 'a list \<Rightarrow> nat option" where
  "findIndex P [] = None"
| "findIndex P (x # xs) = (if P x then Some 0 else map_option Suc (findIndex P xs))"

definition spliceOut :: "nat \<Rightarrow> 'a list \<Rightarrow> 'a list" where
  "spliceOut i xs = take i xs @ drop (Suc i) xs"

subsection \<open>path.extname\<close>

text \<open>
  Node's \<^verbatim>\<open>path.extname\<close> scans the path from its last character down to the index
  \<open>start\<close>. The loop is the recursion of \<open>extnameLoop\<close> over the reversed path without its
  first \<open>start\<close> characters: the head of the list is the character at index \<open>i\<close>, which is
  \<open>start\<close> plus the length of the rest. The extension starts at the last dot of the last
  path segment; a segment that starts with its only dot, and the segment \<^verbatim>\<open>..\<close>, have
  none. The two implementations differ in the separators and in \<open>start\<close>: on POSIX the
  slash is the only separator and the scan reaches index 0; on Windows the backslash is
  a separator too, and a drive prefix (a letter and a colon) is not scanned.
\<close>

record extScan =
  startDot :: int
  startPart :: int
  endIdx :: int
  matchedSlash :: bool
  preDotState :: int

fun extnameLoop :: "(char \<Rightarrow> bool) \<Rightarrow> nat \<Rightarrow> string \<Rightarrow> extScan \<Rightarrow> extScan" where
  "extnameLoop isSep start [] st = st"
| "extnameLoop isSep start (c # front) st =
     (let i = int start + int (length front)
      in if isSep c then
           (if \<not> matchedSlash st then st\<lparr>startPart := i + 1\<rparr>
            else extnameLoop isSep start front st)
         else
           (let st1 = (if endIdx st = - 1 then st\<lparr>matchedSlash := False, endIdx := i + 1\<rparr>
                       else st);
                st2 = (if c = CHR ''.'' then
                         (if startDot st1 = - 1 then st1\<lparr>startDot := i\<rparr>
                          else if preDotState st1 \<noteq> 1 then st1\<lparr>preDotState := 1\<rparr>
                          else st1)
                       else if startDot st1 \<noteq> - 1 then st1\<lparr>preDotState := - 1\<rparr>
                       else st1)
            in extnameLoop isSep start front st2))"

definition extnameFrom :: "(char \<Rightarrow> bool) \<Rightarrow> nat \<Rightarrow> string \<Rightarrow> string" where
  "extnameFrom isSep start p =
     (let st = extnameLoop isSep start (rev (drop start p))
                 \<lparr>startDot = - 1, startPart = int start, endIdx = - 1, matchedSlash = True,
                  preDotState = 0\<rparr>
      in if startDot st = - 1 \<or> endIdx st = - 1 \<or> preDotState st = 0 \<or>
            (preDotState st = 1 \<and> startDot st = endIdx st - 1 \<and>
             startDot st = startPart st + 1)
         then []
         else take (nat (endIdx st - startDot st)) (drop (nat (startDot st)) p))"

definition posixExtname :: "string \<Rightarrow> string" where
  "posixExtname p = extnameFrom (\<lambda>c. c = CHR ''/'') 0 p"

definition isWindowsDeviceRoot :: "char \<Rightarrow> bool" where
  "isWindowsDeviceRoot c =
     (let n = (of_char c :: nat) in (65 \<le> n \<and> n \<le> 90) \<or> (97 \<le> n \<and> n \<le> 122))"

definition hasDrivePrefix :: "string \<Rightarrow> bool" where
  "hasDrivePrefix p =
     (case p of c0 # c1 # r \<Rightarrow> c1 = CHR '':'' \<and> isWindowsDeviceRoot c0 | _ \<Rightarrow> False)"

definition win32Extname :: "string \<Rightarrow> string" where
  "win32Extname p =
     extnameFrom (\<lambda>c. c = CHR ''/'' \<or> c = CHR 0x5C) (if hasDrivePrefix p then 2 else 0) p"

subsection \<open>The MD5 digest (crypto.createHash("md5"), RFC 1321)\<close>

text \<open>
  The digest of Node's \<^verbatim>\<open>createHash("md5").update(s).digest("hex")\<close>: the message is
  padded with the byte 128, zero bytes up to 56 modulo 64 and its length in bits as eight
  bytes; each block of sixteen little-endian words goes through the 64 steps of
  \<open>md5_step\<close>; the four words of the final state are printed as 32 hexadecimal digits.
\<close>

definition md5_K :: "32 word list" where
  "md5_K =
   [0xd76aa478, 0xe8c7b756, 0x242070db, 0xc1bdceee,
    0xf57c0faf, 0x4787c62a, 0xa8304613, 0xfd469501,
    0x698098d8, 0x8b44f7af, 0xffff5bb1, 0x895cd7be,
    0x6b901122, 0xfd987193, 0xa679438e, 0x49b40821,
    0xf61e2562, 0xc040b340, 0x265e5a51, 0xe9b6c7aa,
    0xd62f105d, 0x02441453, 0xd8a1e681, 0xe7d3fbc8,
    0x21e1cde6, 0xc33707d6, 0xf4d50d87, 0x455a14ed,
    0xa9e3e905, 0xfcefa3f8, 0x676f02d9, 0x8d2a4c8a,
    0xfffa3942, 0x8771f681, 0x6d9d6122, 0xfde5380c,
    0xa4beea44, 0x4bdecfa9, 0xf6bb4b60, 0xbebfbc70,
    0x289b7ec6, 0xeaa127fa, 0xd4ef3085, 0x04881d05,
    0xd9d4d039, 0xe6db99e5, 0x1fa27cf8, 0xc4ac5665,
    0xf4292244, 0x432aff97, 0xab9423a7, 0xfc93a039,
    0x655b59c3, 0x8f0ccc92, 0xffeff47d, 0x85845dd1,
    0x6fa87e4f, 0xfe2ce6e0, 0xa3014314, 0x4e0811a1,
    0xf7537e82, 0xbd3af235, 0x2ad7d2bb, 0xeb86d391]"

definition md5_S :: "nat list" where
  "md5_S =
   [7, 12, 17, 22, 7, 12, 17, 22, 7, 12, 17, 22, 7, 12, 17, 22,
    5, 9, 14, 20, 5, 9, 14, 20, 5, 9, 14, 20, 5, 9, 14, 20,
    4, 11, 16, 23, 4, 11, 16, 23, 4, 11, 16, 23, 4, 11, 16, 23,
    6, 10, 15, 21, 6, 10, 15, 21, 6, 10, 15, 21, 6, 10, 15, 21]"

type_synonym md5_state = "32 word \<times> 32 word \<times> 32 word \<times> 32 word"

definition rotl32 :: "nat \<Rightarrow> 32 word \<Rightarrow> 32 word" where
  "rotl32 n w = push_bit n w OR drop_bit (32 - n) w"

definition md5_step :: "32 word list \<Rightarrow> md5_state \<Rightarrow> nat \<Rightarrow> md5_state" where
  "md5_step m st i =
     (case st of (a, b, c, d) \<Rightarrow>
        let f = (if i < 16 then (b AND c) OR (NOT b AND d)
                 else if i < 32 then (d AND b) OR (NOT d AND c)
                 else if i < 48 then b XOR c XOR d
                 else c XOR (b OR NOT d));
            g = (if i < 16 then i
                 else if i < 32 then (5 * i + 1) mod 16
                 else if i < 48 then (3 * i + 5) mod 16
                 else (7 * i) mod 16)
        in (d, b + rotl32 (md5_S ! i) (a + f + md5_K ! i + m ! g), b, c))"

definition md5_block :: "md5_state \<Rightarrow> 32 word list \<Rightarrow> md5_state" where
  "md5_block st m =
     (case st of (a0, b0, c0, d0) \<Rightarrow>
        case foldl (md5_step m) st [0..<64] of (a, b, c, d) \<Rightarrow>
          (a0 + a, b0 + b, c0 + c, d0 + d))"

fun le_bytes :: "nat \<Rightarrow> nat \<Rightarrow> nat list" where
  "le_bytes 0 n = []"
| "le_bytes (Suc k) n = n mod 256 # le_bytes k (n div 256)"

definition md5_pad :: "nat list \<Rightarrow> nat list" where
  "md5_pad bs =
     bs @ [128] @ map (\<lambda>_. 0) [0..<(119 - length bs mod 64) mod 64] @
     le_bytes (Suc (Suc (Suc (Suc (Suc (Suc (Suc (Suc 0)))))))) (8 * length bs)"

fun le_words :: "nat list \<Rightarrow> 32 word list" where
  "le_words (b0 # b1 # b2 # b3 # bs) =
     of_nat (b0 + 256 * b1 + 65536 * b2 + 16777216 * b3) # le_words bs"
| "le_words _ = []"

definition hex_digit :: "nat \<Rightarrow> char" where
  "hex_digit n = ''0123456789abcdef'' ! n"

definition hex_byte :: "nat \<Rightarrow> string" where
  "hex_byte b = [hex_digit (b div 16), hex_digit (b mod 16)]"

definition md5_words :: "string \<Rightarrow> 32 word list" where
  "md5_words s = le_words (md5_pad (map of_char s))"

definition md5_init :: md5_state where
  "md5_init = (0x67452301, 0xefcdab89, 0x98badcfe, 0x10325476)"

definition md5_hex :: "md5_state \<Rightarrow> string" where
  "md5_hex st =
     (case st of (a, b, c, d) \<Rightarrow>
        concat (map hex_byte
                  (concat (map (\<lambda>w. le_bytes (Suc (Suc (Suc (Suc 0)))) (unat w))
                             [a, b, c, d]))))"

definition md5 :: "string \<Rightarrow> string" where
  "md5 s =
     (let ws = md5_words s
      in md5_hex (foldl (\<lambda>st k. md5_block st (take 16 (drop (16 * k) ws))) md5_init
                    [0..<length ws div 16]))"

section \<open>The host\<close>

text \<open>
  The host of the extension: the functions of Node's \<^verbatim>\<open>path\<close> module, which depend on
  the platform (\<open>extname\<close> is \<open>posixExtname\<close> or \<open>win32Extname\<close>), the configured \<^verbatim>\<open>titleMaxLength\<close> and \<^verbatim>\<open>fileTypes\<close> (\<open>None\<close> when the
  latter is not set), and the workspace: \<open>readFile\<close> returns the decoded content of a
  file or \<open>Inl\<close> the reason of the failure, \<open>findFiles\<close> the paths that match a glob
  pattern.
\<close>

record Host =
  normalize :: "string \<Rightarrow> string"
  isAbsolute :: "string \<Rightarrow> bool"
  basename :: "string \<Rightarrow> string"
  extname :: "string \<Rightarrow> string"
  sep :: char
  titleMaxLength :: int
  fileTypes :: "string list option"
  readFile :: "string \<Rightarrow> string + string"
  findFiles :: "string \<Rightarrow> string list"

section \<open>utils.ts\<close>

subsection \<open>Reference extraction\<close>

text \<open>
  The three macro patterns have the shape \<^verbatim>\<open>PREFIX([^\[]+\.adoc)\[([^\]]*)\]\<close>. The first
  group cannot contain an opening bracket and must be followed by one, so it is the text
  up to the first opening bracket after the prefix, which has to end with \<^verbatim>\<open>.adoc\<close> after
  at least one other character; the second group is the text up to the next closing
  bracket. \<open>macroBody\<close> matches the part after the prefix and returns both groups and the
  text after the match. \<open>scanMacro\<close> is the loop of \<^verbatim>\<open>exec\<close> with the flag \<^verbatim>\<open>g\<close>: the
  leftmost match from the current position, then on from the end of that match. Its flag
  \<open>lookbehind\<close> stands for \<^verbatim>\<open>(?<!\w)\<close> of the link pattern, and \<open>prevWord\<close> says whether
  the character before the position is a word character.
\<close>

definition isExternalUrl :: "string \<Rightarrow> bool" where
  "isExternalUrl url = (startsWith url ''http://'' \<or> startsWith url ''https://'')"

definition macroBody :: "string \<Rightarrow> (string \<times> string \<times> string) option" where
  "macroBody s =
     (let g1 = takeWhile (\<lambda>c. c \<noteq> CHR ''['') s;
          r1 = dropWhile (\<lambda>c. c \<noteq> CHR ''['') s
      in if r1 = [] \<or> \<not> (5 < length g1 \<and> endsWith g1 ''.adoc'') then None
         else
           (let g2 = takeWhile (\<lambda>c. c \<noteq> CHR '']'') (tl r1);
                r2 = dropWhile (\<lambda>c. c \<noteq> CHR '']'') (tl r1)
            in if r2 = [] then None else Some (g1, g2, tl r2)))"

definition macroAt :: "string \<Rightarrow> bool \<Rightarrow> bool \<Rightarrow> string \<Rightarrow> (string \<times> string \<times> string) option" where
  "macroAt pre lookbehind prevWord s =
     (if startsWith s pre \<and> \<not> (lookbehind \<and> prevWord) then macroBody (drop (length pre) s)
      else None)"

lemma macroBody_shorter: "macroBody s = Some (g1, g2, rest) \<Longrightarrow> length rest < length s"
proof -
  assume a: "macroBody s = Some (g1, g2, rest)"
  let ?r1 = "dropWhile (\<lambda>c. c \<noteq> CHR ''['') s"
  let ?r2 = "dropWhile (\<lambda>c. c \<noteq> CHR '']'') (tl ?r1)"
  from a have r1: "?r1 \<noteq> []" and r2: "?r2 \<noteq> []" and rest: "rest = tl ?r2"
    by (auto simp: macroBody_def Let_def split: if_splits)
  have "length ?r2 \<le> length (tl ?r1)" by (rule length_dropWhile_le)
  moreover have "length (tl ?r1) < length ?r1" using r1 by (cases ?r1) auto
  moreover have "length ?r1 \<le> length s" by (rule length_dropWhile_le)
  moreover have "length rest < length ?r2" using r2 rest by (cases ?r2) auto
  ultimately show ?thesis by linarith
qed

lemma macroAt_shorter:
  "macroAt pre lb pw s = Some (g1, g2, rest) \<Longrightarrow> length rest < length s"
  by (auto simp: macroAt_def dest!: macroBody_shorter split: if_splits)

function scanMacro :: "string \<Rightarrow> bool \<Rightarrow> bool \<Rightarrow> string \<Rightarrow> (string \<times> string) list" where
  "scanMacro pre lookbehind prevWord [] = []"
| "scanMacro pre lookbehind prevWord (c # cs) =
     (case macroAt pre lookbehind prevWord (c # cs) of
        Some (g1, g2, rest) \<Rightarrow> (g1, g2) # scanMacro pre lookbehind False rest
      | None \<Rightarrow> scanMacro pre lookbehind (isWordChar c) cs)"
  by pat_completeness auto
termination
  by (relation "measure (\<lambda>(pre, lb, pw, s). length s)") (auto dest: macroAt_shorter)

text \<open>
  The anchor pattern \<^verbatim>\<open><<([^,>]+\.adoc)(?:,[^>]*)?>>?\<close>: after the two opening
  brackets the group is the text up to the first comma or closing bracket and has to end
  with \<^verbatim>\<open>.adoc\<close> after at least one other character. After a comma the label runs up
  to the next closing bracket, which has to exist. \<open>optGt\<close> is the optional second
  closing bracket.
\<close>

definition optGt :: "string \<Rightarrow> string" where
  "optGt s = (case s of [] \<Rightarrow> [] | c # cs \<Rightarrow> if c = CHR ''>'' then cs else c # cs)"

definition anchorTail :: "string \<Rightarrow> string option" where
  "anchorTail r1 =
     (case r1 of
        [] \<Rightarrow> None
      | c # cs \<Rightarrow>
          if c = CHR '','' then
            (let r2 = dropWhile (\<lambda>c. c \<noteq> CHR ''>'') cs
             in if r2 = [] then None else Some (optGt (tl r2)))
          else Some (optGt cs))"

definition anchorAt :: "string \<Rightarrow> (string \<times> string) option" where
  "anchorAt s =
     (if \<not> startsWith s ''<<'' then None
      else
        (let b = drop 2 s;
             g1 = takeWhile (\<lambda>c. c \<noteq> CHR '','' \<and> c \<noteq> CHR ''>'') b;
             r1 = dropWhile (\<lambda>c. c \<noteq> CHR '','' \<and> c \<noteq> CHR ''>'') b
         in if r1 = [] \<or> \<not> (5 < length g1 \<and> endsWith g1 ''.adoc'') then None
            else map_option (Pair g1) (anchorTail r1)))"

lemma optGt_le: "length (optGt s) \<le> length s"
  by (simp add: optGt_def split: list.splits)

lemma anchorTail_shorter: "anchorTail r1 = Some rest \<Longrightarrow> length rest < length r1"
proof (cases r1)
  case Nil
  assume "anchorTail r1 = Some rest"
  with Nil show ?thesis by (simp add: anchorTail_def)
next
  case (Cons c cs)
  assume a: "anchorTail r1 = Some rest"
  show ?thesis
  proof (cases "c = CHR '',''")
    case False
    with a Cons have "rest = optGt cs" by (simp add: anchorTail_def)
    with Cons optGt_le [of cs] show ?thesis by simp
  next
    case True
    let ?r2 = "dropWhile (\<lambda>c. c \<noteq> CHR ''>'') cs"
    from a Cons True have e: "rest = optGt (tl ?r2)"
      by (simp add: anchorTail_def Let_def split: if_splits)
    have "length (optGt (tl ?r2)) \<le> length (tl ?r2)" by (rule optGt_le)
    moreover have "length (tl ?r2) \<le> length ?r2" by simp
    moreover have "length ?r2 \<le> length cs" by (rule length_dropWhile_le)
    ultimately show ?thesis unfolding e using Cons by simp
  qed
qed

lemma anchorAt_shorter: "anchorAt s = Some (g1, rest) \<Longrightarrow> length rest < length s"
proof -
  assume a: "anchorAt s = Some (g1, rest)"
  let ?b = "drop 2 s"
  let ?r1 = "dropWhile (\<lambda>c. c \<noteq> CHR '','' \<and> c \<noteq> CHR ''>'') ?b"
  have t: "anchorTail ?r1 = Some rest"
    using a unfolding anchorAt_def Let_def by (simp split: if_splits)
  have "length ?r1 \<le> length ?b" by (rule length_dropWhile_le)
  moreover have "length ?b \<le> length s" by simp
  ultimately show ?thesis using anchorTail_shorter [OF t] by linarith
qed

function scanAnchor :: "string \<Rightarrow> string list" where
  "scanAnchor [] = []"
| "scanAnchor (c # cs) =
     (case anchorAt (c # cs) of
        Some (g1, rest) \<Rightarrow> g1 # scanAnchor rest
      | None \<Rightarrow> scanAnchor cs)"
  by pat_completeness auto
termination
  by (relation "measure length") (auto dest: anchorAt_shorter)

text \<open>
  \<open>wordBoundaryTest kw\<close> is \<^verbatim>\<open>/\bKW/.test\<close> for a keyword that starts with a word
  character: the keyword occurs at a position whose previous character, if any, is not
  a word character.
\<close>

fun wordBoundaryTest :: "string \<Rightarrow> bool \<Rightarrow> string \<Rightarrow> bool" where
  "wordBoundaryTest kw prevWord [] = False"
| "wordBoundaryTest kw prevWord (c # cs) =
     ((\<not> prevWord \<and> startsWith (c # cs) kw) \<or> wordBoundaryTest kw (isWordChar c) cs)"

definition hasPartialIncludeAttributes :: "string \<Rightarrow> bool" where
  "hasPartialIncludeAttributes attributes =
     (if attributes = [] then False
      else list_ex (\<lambda>kw. wordBoundaryTest kw False attributes) [''tag='', ''tags='', ''lines=''])"

definition findAsciidocLinks :: "string \<Rightarrow> AsciidocLink list" where
  "findAsciidocLinks content =
     (let xrefs = map (\<lambda>(g1, g2). \<lparr>ltarget = trim g1, ltype = Link\<rparr>)
                    (filter (\<lambda>(g1, g2). \<not> isExternalUrl (trim g1))
                       (scanMacro ''xref:'' False False content));
          anchors = map (\<lambda>g1. \<lparr>ltarget = trim g1, ltype = Link\<rparr>)
                      (filter (\<lambda>g1. \<not> isExternalUrl (trim g1) \<and> endsWith (trim g1) ''.adoc'')
                         (scanAnchor content));
          links = map (\<lambda>(g1, g2). \<lparr>ltarget = trim g1, ltype = Link\<rparr>)
                    (filter (\<lambda>(g1, g2). \<not> isExternalUrl (trim g1))
                       (scanMacro ''link:'' True False content));
          includes = map (\<lambda>(g1, g2).
                            \<lparr>ltarget = trim g1,
                             ltype = (if hasPartialIncludeAttributes (trim g2)
                                      then IncludePartial else Include)\<rparr>)
                       (filter (\<lambda>(g1, g2). \<not> isExternalUrl (trim g1))
                          (scanMacro ''include::'' False False content))
      in xrefs @ anchors @ links @ includes)"

subsection \<open>Title extraction\<close>

text \<open>
  The title pattern \<^verbatim>\<open>/^= +(.+)$/m\<close> matches a whole line: an equals sign, one or more
  spaces and at least one more character. The group is what follows the spaces, or a
  single space when spaces are all that follows. The first such line of the content
  counts. \<open>maxLength\<close> is the value of \<^verbatim>\<open>getTitleMaxLength()\<close>.
\<close>

definition isLineTerminator :: "char \<Rightarrow> bool" where
  "isLineTerminator c = (c = CHR 0x0A \<or> c = CHR 0x0D)"

definition titleLine :: "string \<Rightarrow> string option" where
  "titleLine l =
     (case l of
        c1 # c2 # r \<Rightarrow>
          if c1 = CHR ''='' \<and> c2 = CHR '' '' then
            (let t = dropWhile (\<lambda>c. c = CHR '' '') r
             in if t \<noteq> [] then Some t else if r \<noteq> [] then Some '' '' else None)
          else None
      | _ \<Rightarrow> None)"

fun firstSome :: "('a \<Rightarrow> 'b option) \<Rightarrow> 'a list \<Rightarrow> 'b option" where
  "firstSome f [] = None"
| "firstSome f (x # xs) = (case f x of Some y \<Rightarrow> Some y | None \<Rightarrow> firstSome f xs)"

definition findAsciidocTitle :: "int \<Rightarrow> string \<Rightarrow> string option" where
  "findAsciidocTitle maxLength content =
     (case firstSome titleLine (splitOn isLineTerminator content) of
        None \<Rightarrow> None
      | Some m \<Rightarrow>
          (let title = trim m
           in Some (if 0 < maxLength \<and> maxLength < int (length title)
                    then take (nat maxLength) title @ ''...''
                    else title)))"

subsection \<open>Identifier\<close>

text \<open>
  \<open>id_path\<close> is the function \<^verbatim>\<open>id\<close> of the program and \<open>pathWithoutExt\<close> its local
  constant; the extension is the one that the \<^verbatim>\<open>extname\<close> of the host reports.
\<close>

definition pathWithoutExt :: "Host \<Rightarrow> string \<Rightarrow> string" where
  "pathWithoutExt h p = take (length p - length (extname h p)) p"

definition id_path :: "Host \<Rightarrow> string \<Rightarrow> string" where
  "id_path h p = md5 (pathWithoutExt h p)"

subsection \<open>Consistency filter\<close>

text \<open>
  \<^verbatim>\<open>exists = (graph, id) => !!graph.nodes.find((node) => node.id === id)\<close>:
  \<^verbatim>\<open>find\<close> returns the first node with that id or \<^verbatim>\<open>undefined\<close>, and a node object
  is truthy.
\<close>

definition exists :: "Graph \<Rightarrow> string \<Rightarrow> bool" where
  "exists graph i = (find (\<lambda>node. nid node = i) (nodes graph) \<noteq> None)"

definition filterNonExistingEdges :: "Graph \<Rightarrow> Graph" where
  "filterNonExistingEdges graph =
     graph\<lparr>edges := filter (\<lambda>edge. exists graph (source edge) \<and> exists graph (target edge))
                       (edges graph)\<rparr>"

section \<open>parsing.ts\<close>

text \<open>
  The edge pushed for one link of the file \<open>filePath\<close>, whose directory is
  \<open>parentDirectory\<close>.
\<close>

definition linkEdge :: "Host \<Rightarrow> string \<Rightarrow> string \<Rightarrow> AsciidocLink \<Rightarrow> Edge" where
  "linkEdge h filePath parentDirectory link =
     (let target0 = normalize h (ltarget link);
          target1 = (if \<not> isAbsolute h (ltarget link)
                     then normalize h (parentDirectory @ ''/'' @ ltarget link)
                     else target0)
      in \<lparr>source = id_path h filePath, target = id_path h target1, etype = ltype link\<rparr>)"

text \<open>
  \<open>parseFile\<close> mutates the graph it is given and returns a promise. The model returns the
  graph as it is when the promise settles, and \<open>Inl\<close> the reason when it rejects. The only
  point of suspension is the read; everything after it runs without interruption.
\<close>

definition parseFile :: "Host \<Rightarrow> Graph \<Rightarrow> string \<Rightarrow> Graph \<times> (string + unit)" where
  "parseFile h graph filePath0 =
     (let filePath = normalize h filePath0
      in case readFile h filePath of
           Inl err \<Rightarrow> (graph, Inl err)
         | Inr content \<Rightarrow>
             (let title = findAsciidocTitle (titleMaxLength h) content;
                  index = findIndex (\<lambda>node. path node = filePath) (nodes graph);
                  untitled =
                    (case index of
                       Some i \<Rightarrow> (graph\<lparr>nodes := spliceOut i (nodes graph)\<rparr>, Inr ())
                     | None \<Rightarrow> (graph, Inr ()))
              in case title of
                   None \<Rightarrow> untitled
                 | Some t \<Rightarrow>
                     if t = [] then untitled
                     else
                       (let nodes1 =
                              (case index of
                                 Some i \<Rightarrow> (nodes graph)[i := (nodes graph ! i)\<lparr>label := t\<rparr>]
                               | None \<Rightarrow>
                                   nodes graph @
                                   [\<lparr>nid = id_path h filePath, path = filePath, label = t\<rparr>]);
                            edges1 =
                              filter (\<lambda>edge. source edge \<noteq> id_path h filePath) (edges graph);
                            links = findAsciidocLinks content;
                            parentDirectory =
                              join [sep h] (butlast (splitOn (\<lambda>c. c = sep h) filePath));
                            edges2 =
                              foldl (\<lambda>es link. es @ [linkEdge h filePath parentDirectory link])
                                edges1 links
                        in (\<lparr>nodes = nodes1, edges = edges2\<rparr>, Inr ()))))"

subsection \<open>Directory scan\<close>

text \<open>
  A promise is modelled by its settlement: the turn of the event loop at which it
  settles, and its outcome, \<open>Inl\<close> the reason when it rejects. An asynchronous callback
  is a function of the turn at which it is called. \<^verbatim>\<open>Promise.all\<close> fulfils once all its
  promises have fulfilled, and rejects as soon as one of them rejects, with that reason;
  of an empty list it fulfils at once.
\<close>

record Settlement =
  at :: nat
  outcome :: "string + unit"

definition promiseAll :: "nat \<Rightarrow> Settlement list \<Rightarrow> Settlement" where
  "promiseAll now ps =
     (case filter (\<lambda>p. isl (outcome p)) ps of
        [] \<Rightarrow> \<lparr>at = foldl max now (map at ps), outcome = Inr ()\<rparr>
      | r # rs \<Rightarrow> foldl (\<lambda>first p. if at p < at first then p else first) r rs)"

definition getFileTypesSetting :: "Host \<Rightarrow> string list" where
  "getFileTypesSetting h =
     (case fileTypes h of None \<Rightarrow> [''adoc'', ''asciidoc''] | Some types \<Rightarrow> types)"

text \<open>
  \<open>launch\<close> is the loop of \<open>parseDirectory\<close>: it calls the callback, at the turn \<open>now\<close>
  of the loop, for each listed file whose base name does not start with a dot, and
  collects the promises in the order of the listing. \<open>parseDirectory\<close> awaits them
  with \<^verbatim>\<open>Promise.all\<close>. The callbacks are asynchronous functions (\<open>parseFile\<close> is
  one): a call returns a promise and does not throw. The graph is only handed to the
  callbacks.
\<close>

definition launch :: "Host \<Rightarrow> (nat \<Rightarrow> string \<Rightarrow> Settlement) \<Rightarrow> nat \<Rightarrow> (string \<times> Settlement) list" where
  "launch h fileCallback now =
     (let files = findFiles h
            (''**/*{'' @ join '','' (map (\<lambda>f. ''.'' @ f) (getFileTypesSetting h)) @ ''}'')
      in map (\<lambda>file. (file, fileCallback now file))
           (filter (\<lambda>file. \<not> startsWith (basename h file) ''.'') files))"

definition parseDirectory :: "Host \<Rightarrow> (nat \<Rightarrow> string \<Rightarrow> Settlement) \<Rightarrow> nat \<Rightarrow> Settlement" where
  "parseDirectory h fileCallback now = promiseAll now (map snd (launch h fileCallback now))"

section \<open>graph.js\<close>

text \<open>
  The view keeps the nodes and the links of the last snapshot it has drawn. The nodes of
  a snapshot are the nodes of the graph, objects with the properties \<^verbatim>\<open>id\<close>, \<^verbatim>\<open>path\<close>
  and \<^verbatim>\<open>label\<close>: reading their property \<^verbatim>\<open>title\<close> gives \<^verbatim>\<open>undefined\<close>. The links the
  view keeps have been initialised by the force layout, which has replaced the ids in
  their source and target by the node objects.
\<close>

datatype jsval = Undefined | Str string

definition falsy :: "jsval \<Rightarrow> bool" where
  "falsy v = (v = Undefined \<or> v = Str [])"

definition titleOf :: "Node \<Rightarrow> jsval" where
  "titleOf node = Undefined"

record D3Link =
  dsource :: Node
  dtarget :: Node
  dtype :: EdgeType

definition typeName :: "EdgeType \<Rightarrow> string" where
  "typeName t = (case t of Link \<Rightarrow> ''link'' | Include \<Rightarrow> ''include''
                 | IncludePartial \<Rightarrow> ''include-partial'')"

definition edgeKey :: "string \<Rightarrow> string \<Rightarrow> EdgeType \<Rightarrow> string" where
  "edgeKey s t ty = s @ ''-'' @ t @ ''-'' @ typeName ty"

definition sameNodes :: "Node list \<Rightarrow> Node list \<Rightarrow> bool" where
  "sameNodes previous next =
     (if length next \<noteq> length previous then False
      else
        (let m = foldl (\<lambda>m node. m(nid node \<mapsto> label node)) Map.empty previous
         in list_all
              (\<lambda>node.
                 let found = (case m (nid node) of None \<Rightarrow> Undefined | Some l \<Rightarrow> Str l)
                 in \<not> (falsy found \<or> found \<noteq> titleOf node))
              next))"

definition sameEdges :: "D3Link list \<Rightarrow> Edge list \<Rightarrow> bool" where
  "sameEdges previous next =
     (if length next \<noteq> length previous then False
      else
        (let keys = foldl (\<lambda>s edge. insert (edgeKey (nid (dsource edge)) (nid (dtarget edge))
                                              (dtype edge)) s) {} previous
         in list_all (\<lambda>edge. edgeKey (source edge) (target edge) (etype edge) \<in> keys) next))"

text \<open>
  The handler of the message \<^verbatim>\<open>refresh\<close>. \<open>restarts\<close> counts the calls of \<^verbatim>\<open>restart\<close>,
  and \<open>link\<close> stands for the initialisation of the links by the force layout there.
\<close>

record View =
  nodesData :: "Node list"
  linksData :: "D3Link list"
  restarts :: nat

definition refresh :: "(Node list \<Rightarrow> Edge list \<Rightarrow> D3Link list) \<Rightarrow> View \<Rightarrow> Node list \<times> Edge list \<Rightarrow> View" where
  "refresh link v payload =
     (case payload of
        (nodes', edges') \<Rightarrow>
          if sameNodes (nodesData v) nodes' \<and> sameEdges (linksData v) edges' then v
          else \<lparr>nodesData = nodes', linksData = link nodes' edges', restarts = Suc (restarts v)\<rparr>)"

section \<open>Auxiliary notions\<close>

text \<open>
  The node list after \<open>parseFile\<close> has found a title \<open>t\<close> for the path \<open>fp\<close>: the label
  of the first node with that path is replaced, or a new node is appended.
\<close>

definition upsertNode :: "Host \<Rightarrow> string \<Rightarrow> string \<Rightarrow> Node list \<Rightarrow> Node list" where
  "upsertNode h fp t ns =
     (case findIndex (\<lambda>node. path node = fp) ns of
        Some i \<Rightarrow> ns[i := (ns ! i)\<lparr>label := t\<rparr>]
      | None \<Rightarrow> ns @ [\<lparr>nid = id_path h fp, path = fp, label = t\<rparr>])"

text \<open>
  A small corpus for concrete runs on a POSIX host. Its paths are absolute and
  normalized, so Node's \<^verbatim>\<open>path.normalize\<close> is the identity on them and on the link
  targets resolved against the directory \<^verbatim>\<open>/docs\<close>. \<open>exampleWin32Host\<close> is the same
  host with the \<^verbatim>\<open>extname\<close> of Windows.
\<close>

definition exampleHost :: Host where
  "exampleHost =
     \<lparr>normalize = (\<lambda>p. p),
      isAbsolute = (\<lambda>p. startsWith p ''/''),
      basename = (\<lambda>p. last (splitOn (\<lambda>c. c = CHR ''/'') p)),
      extname = posixExtname,
      sep = CHR ''/'',
      titleMaxLength = 0,
      fileTypes = None,
      readFile = (\<lambda>p.
        if p = ''/docs/a.adoc''
        then Inr (''= Guide'' @ [CHR 0x0A] @ ''include::b.adoc[tag=x] xref:c.adoc[C]'')
        else if p = ''/docs/a.asciidoc'' then Inr ''= Guide two''
        else if p = ''/docs/notes.adoc'' then Inr ''no heading here''
        else Inl ''ENOENT''),
      findFiles = (\<lambda>glob.
        if glob = ''**/*{.adoc,.asciidoc}''
        then [''/docs/a.adoc'', ''/docs/.draft.adoc'', ''/docs/notes.adoc'']
        else [])\<rparr>"

definition exampleWin32Host :: Host where
  "exampleWin32Host = exampleHost\<lparr>extname := win32Extname\<rparr>"

definition exampleGraph :: Graph where
  "exampleGraph =
     \<lparr>nodes = [\<lparr>nid = id_path exampleHost ''/docs/notes.adoc'', path = ''/docs/notes.adoc'', label = ''Notes''\<rparr>],
      edges = [\<lparr>source = id_path exampleHost ''/docs/notes.adoc'', target = id_path exampleHost ''/docs/a.adoc'',
               etype = Link\<rparr>]\<rparr>"

definition emptyGraph :: Graph where
  "emptyGraph = \<lparr>nodes = [], edges = []\<rparr>"

text \<open>
  Two readings of "the attribute list contains the keyword": anywhere, as the
  specification words it, and at the start of a word, which is what \<^verbatim>\<open>\b\<close> in front of
  the keyword asks for (the keyword starts the list or follows a character that is not a
  word character).
\<close>

definition containsSubstring :: "string \<Rightarrow> string \<Rightarrow> bool" where
  "containsSubstring s kw = (\<exists>pre post. s = pre @ kw @ post)"

definition occursAtWordStart :: "string \<Rightarrow> string \<Rightarrow> bool" where
  "occursAtWordStart s kw =
     (\<exists>pre post. s = pre @ kw @ post \<and> (pre = [] \<or> \<not> isWordChar (last pre)))"

definition exampleNode :: Node where
  "exampleNode = \<lparr>nid = id_path exampleHost ''/docs/a.adoc'', path = ''/docs/a.adoc'', label = ''Guide''\<rparr>"

text \<open>
  Two callbacks for the example corpus: one whose promise rejects early for
  \<^verbatim>\<open>/docs/a.adoc\<close> and fulfils later for every other file, and one that always fulfils.
\<close>

definition exampleCallback :: "nat \<Rightarrow> string \<Rightarrow> Settlement" where
  "exampleCallback now file =
     (if file = ''/docs/a.adoc'' then \<lparr>at = now + 1, outcome = Inl ''EACCES''\<rparr>
      else \<lparr>at = now + 2, outcome = Inr ()\<rparr>)"

definition fulfillingCallback :: "nat \<Rightarrow> string \<Rightarrow> Settlement" where
  "fulfillingCallback now file = \<lparr>at = now + length file, outcome = Inr ()\<rparr>"

section \<open>Lemmas on the list primitives and on parseFile\<close>

lemma findIndex_None_iff: "findIndex P xs = None \<longleftrightarrow> (\<forall>x \<in> set xs. \<not> P x)"
  by (induction xs) auto

lemma findIndex_Some:
  "findIndex P xs = Some i \<Longrightarrow> i < length xs \<and> P (xs ! i) \<and> (\<forall>j < i. \<not> P (xs ! j))"
proof (induction xs arbitrary: i)
  case Nil
  then show ?case by simp
next
  case (Cons x xs)
  show ?case
  proof (cases "P x")
    case True
    with Cons.prems show ?thesis by simp
  next
    case False
    with Cons.prems obtain k where k: "findIndex P xs = Some k" "i = Suc k"
      by auto
    from Cons.IH [OF k(1)] False k(2) show ?thesis
      by (auto simp: nth_Cons split: nat.splits)
  qed
qed

lemma foldl_snoc_map: "foldl (\<lambda>es l. es @ [f l]) es ls = es @ map f ls"
  by (induction ls arbitrary: es) auto

lemma parseFile_titled:
  assumes "readFile h (normalize h p) = Inr content"
    and "findAsciidocTitle (titleMaxLength h) content = Some t" and "t \<noteq> []"
  shows "parseFile h g p =
    (\<lparr>nodes = upsertNode h (normalize h p) t (nodes g),
      edges = filter (\<lambda>e. source e \<noteq> id_path h (normalize h p)) (edges g) @
              map (linkEdge h (normalize h p)
                     (join [sep h] (butlast (splitOn (\<lambda>c. c = sep h) (normalize h p)))))
                (findAsciidocLinks content)\<rparr>, Inr ())"
  using assms by (simp add: parseFile_def Let_def foldl_snoc_map upsertNode_def)

lemma parseFile_untitled:
  assumes "readFile h (normalize h p) = Inr content"
    and "findAsciidocTitle (titleMaxLength h) content = None \<or>
         findAsciidocTitle (titleMaxLength h) content = Some []"
  shows "parseFile h g p =
    (case findIndex (\<lambda>node. path node = normalize h p) (nodes g) of
       Some i \<Rightarrow> (g\<lparr>nodes := spliceOut i (nodes g)\<rparr>, Inr ())
     | None \<Rightarrow> (g, Inr ()))"
  using assms by (auto simp: parseFile_def Let_def)

lemma parseFile_unreadable:
  "readFile h (normalize h p) = Inl err \<Longrightarrow> parseFile h g p = (g, Inl err)"
  by (simp add: parseFile_def Let_def)

lemma filter_update_dropped:
  "i < length ns \<Longrightarrow> \<not> P (ns ! i) \<Longrightarrow> \<not> P x \<Longrightarrow> filter P (ns[i := x]) = filter P ns"
proof (induction ns arbitrary: i)
  case Nil
  then show ?case by simp
next
  case (Cons n ns)
  then show ?case by (cases i) simp_all
qed

lemma upsertNode_other:
  "filter (\<lambda>n. path n \<noteq> fp) (upsertNode h fp t ns) = filter (\<lambda>n. path n \<noteq> fp) ns"
proof (cases "findIndex (\<lambda>node. path node = fp) ns")
  case None
  then show ?thesis by (simp add: upsertNode_def)
next
  case (Some i)
  from findIndex_Some [OF Some] have i: "i < length ns" "path (ns ! i) = fp" by auto
  then show ?thesis
    using Some by (simp add: upsertNode_def filter_update_dropped)
qed

lemma spliceOut_Cons_Suc: "spliceOut (Suc k) (x # xs) = x # spliceOut k xs"
  by (simp add: spliceOut_def)

lemma spliceOut_Cons_0: "spliceOut 0 (x # xs) = xs"
  by (simp add: spliceOut_def)



lemma spliceOut_distinct:
  "distinct (map f xs) \<Longrightarrow> findIndex (\<lambda>x. f x = a) xs = Some i \<Longrightarrow>
   spliceOut i xs = filter (\<lambda>x. f x \<noteq> a) xs"
proof (induction xs arbitrary: i)
  case Nil
  then show ?case by simp
next
  case (Cons x xs)
  show ?case
  proof (cases "f x = a")
    case True
    from True Cons.prems(2) have i0: "i = 0" by simp
    from True Cons.prems(1) have "a \<notin> f ` set xs" by simp
    then have "\<forall>y \<in> set xs. f y \<noteq> a" by blast
    with i0 show ?thesis using True by (simp add: spliceOut_Cons_0 filter_id_conv)
  next
    case False
    with Cons.prems obtain k where k: "findIndex (\<lambda>x. f x = a) xs = Some k" "i = Suc k" by auto
    from Cons.prems have "distinct (map f xs)" by simp
    from Cons.IH [OF this k(1)] False k(2) show ?thesis by (simp add: spliceOut_Cons_Suc)
  qed
qed

lemma findIndex_append_new:
  "findIndex P xs = None \<Longrightarrow> P y \<Longrightarrow> findIndex P (xs @ [y]) = Some (length xs)"
  by (induction xs) (auto split: if_splits)

lemma findIndex_update_same:
  "findIndex P xs = Some i \<Longrightarrow> P y \<Longrightarrow> findIndex P (xs[i := y]) = Some i"
proof (induction xs arbitrary: i)
  case Nil
  then show ?case by simp
next
  case (Cons x xs)
  show ?case
  proof (cases "P x")
    case True
    with Cons.prems show ?thesis by simp
  next
    case False
    with Cons.prems obtain k where k: "findIndex P xs = Some k" "i = Suc k" by auto
    from Cons.IH [OF k(1) Cons.prems(2)] False k(2) show ?thesis by simp
  qed
qed

lemma upsertNode_idem: "upsertNode h fp t (upsertNode h fp t ns) = upsertNode h fp t ns"
proof (cases "findIndex (\<lambda>node. path node = fp) ns")
  case None
  let ?n = "\<lparr>nid = id_path h fp, path = fp, label = t\<rparr>"
  have "findIndex (\<lambda>node. path node = fp) (ns @ [?n]) = Some (length ns)"
    using None by (simp add: findIndex_append_new)
  with None show ?thesis by (simp add: upsertNode_def)
next
  case (Some i)
  from findIndex_Some [OF Some] have i: "i < length ns" "path (ns ! i) = fp" by auto
  let ?ns = "ns[i := (ns ! i)\<lparr>label := t\<rparr>]"
  have "findIndex (\<lambda>node. path node = fp) ?ns = Some i"
    using Some i(2) by (simp add: findIndex_update_same)
  with Some i(1) show ?thesis by (simp add: upsertNode_def)
qed

lemma upsertNode_distinct:
  "distinct (map path ns) \<Longrightarrow> distinct (map path (upsertNode h fp t ns))"
proof (cases "findIndex (\<lambda>node. path node = fp) ns")
  case None
  assume d: "distinct (map path ns)"
  from None have "fp \<notin> path ` set ns" by (auto simp: findIndex_None_iff)
  with d None show ?thesis by (simp add: upsertNode_def)
next
  case (Some i)
  assume d: "distinct (map path ns)"
  from findIndex_Some [OF Some] have i: "i < length ns" "path (ns ! i) = fp" by auto
  have "map path (ns[i := (ns ! i)\<lparr>label := t\<rparr>]) = map path ns"
    using i by (simp add: map_update list_update_same_conv)
  with d Some show ?thesis by (simp add: upsertNode_def)
qed

lemma parseFile_twice:
  assumes "distinct (map path (nodes g))"
  shows "parseFile h (fst (parseFile h g p)) p = parseFile h g p"
proof (cases "readFile h (normalize h p)")
  case (Inl err)
  then show ?thesis by (simp add: parseFile_unreadable)
next
  case (Inr content)
  let ?fp = "normalize h p"
  let ?title = "findAsciidocTitle (titleMaxLength h) content"
  show ?thesis
  proof (cases "?title = None \<or> ?title = Some []")
    case True
    note un = parseFile_untitled [OF Inr True]
    show ?thesis
    proof (cases "findIndex (\<lambda>node. path node = ?fp) (nodes g)")
      case None
      then show ?thesis by (simp add: un)
    next
      case (Some i)
      have "spliceOut i (nodes g) = filter (\<lambda>n. path n \<noteq> ?fp) (nodes g)"
        using spliceOut_distinct [OF assms, of ?fp i] Some by simp
      then have "findIndex (\<lambda>node. path node = ?fp) (spliceOut i (nodes g)) = None"
        by (simp add: findIndex_None_iff)
      with Some show ?thesis by (simp add: un)
    qed
  next
    case False
    then obtain t where t: "?title = Some t" "t \<noteq> []" by auto
    note ti = parseFile_titled [OF Inr t]
    let ?new = "map (linkEdge h ?fp (join [sep h] (butlast (splitOn (\<lambda>c. c = sep h) ?fp))))
                  (findAsciidocLinks content)"
    have "filter (\<lambda>e. source e \<noteq> id_path h ?fp) ?new = []"
      by (simp add: filter_map o_def linkEdge_def Let_def)
    then show ?thesis by (simp add: ti upsertNode_idem)
  qed
qed

lemma parseFile_distinct_paths:
  assumes "distinct (map path (nodes g))"
  shows "distinct (map path (nodes (fst (parseFile h g p))))"
proof (cases "readFile h (normalize h p)")
  case (Inl err)
  with assms show ?thesis by (simp add: parseFile_unreadable)
next
  case (Inr content)
  let ?fp = "normalize h p"
  let ?title = "findAsciidocTitle (titleMaxLength h) content"
  show ?thesis
  proof (cases "?title = None \<or> ?title = Some []")
    case True
    note un = parseFile_untitled [OF Inr True]
    show ?thesis
    proof (cases "findIndex (\<lambda>node. path node = ?fp) (nodes g)")
      case None
      with assms show ?thesis by (simp add: un)
    next
      case (Some i)
      have "spliceOut i (nodes g) = filter (\<lambda>n. path n \<noteq> ?fp) (nodes g)"
        using spliceOut_distinct [OF assms, of ?fp i] Some by simp
      with assms Some show ?thesis by (simp add: un distinct_map_filter)
    qed
  next
    case False
    then obtain t where t: "?title = Some t" "t \<noteq> []" by auto
    from assms show ?thesis by (simp add: parseFile_titled [OF Inr t] upsertNode_distinct)
  qed
qed

lemma parseFile_twice_titled:
  assumes "readFile h (normalize h p) = Inr content"
    and "findAsciidocTitle (titleMaxLength h) content = Some t" and "t \<noteq> []"
  shows "parseFile h (fst (parseFile h g p)) p = parseFile h g p"
proof -
  let ?fp = "normalize h p"
  let ?new = "map (linkEdge h ?fp (join [sep h] (butlast (splitOn (\<lambda>c. c = sep h) ?fp))))
                (findAsciidocLinks content)"
  have "filter (\<lambda>e. source e \<noteq> id_path h ?fp) ?new = []"
    by (simp add: filter_map o_def linkEdge_def Let_def)
  then show ?thesis by (simp add: parseFile_titled [OF assms] upsertNode_idem)
qed

lemma parseFile_twice_edges:
  "edges (fst (parseFile h (fst (parseFile h g p)) p)) = edges (fst (parseFile h g p))"
proof (cases "readFile h (normalize h p)")
  case (Inl err)
  then show ?thesis by (simp add: parseFile_unreadable)
next
  case (Inr content)
  let ?title = "findAsciidocTitle (titleMaxLength h) content"
  show ?thesis
  proof (cases "?title = None \<or> ?title = Some []")
    case True
    have "\<And>g'. edges (fst (parseFile h g' p)) = edges g'"
      by (simp add: parseFile_untitled [OF Inr True] split: option.splits)
    then show ?thesis by simp
  next
    case False
    then obtain t where t: "?title = Some t" "t \<noteq> []" by auto
    from parseFile_twice_titled [OF Inr t] show ?thesis by simp
  qed
qed

section \<open>Lemmas on extname and the digest\<close>

lemma extnameLoop_settled:
  "startDot st \<noteq> - 1 \<Longrightarrow> endIdx st \<noteq> - 1 \<Longrightarrow> preDotState st \<noteq> 0 \<Longrightarrow>
   startDot (extnameLoop isSep start xs st) = startDot st \<and>
   endIdx (extnameLoop isSep start xs st) = endIdx st \<and>
   preDotState (extnameLoop isSep start xs st) \<noteq> 0"
proof (induction xs arbitrary: st)
  case Nil
  then show ?case by simp
next
  case (Cons c xs)
  show ?case
  proof (cases "isSep c")
    case True
    with Cons.prems Cons.IH [of st] show ?thesis by simp
  next
    case False
    let ?st2 = "if c = CHR ''.''
                then (if preDotState st \<noteq> 1 then st\<lparr>preDotState := 1\<rparr> else st)
                else st\<lparr>preDotState := - 1\<rparr>"
    have step: "extnameLoop isSep start (c # xs) st = extnameLoop isSep start xs ?st2"
      using False Cons.prems by (simp add: Let_def)
    have "startDot ?st2 = startDot st" "endIdx ?st2 = endIdx st" "preDotState ?st2 \<noteq> 0"
      using Cons.prems by auto
    with Cons.IH [of ?st2] Cons.prems show ?thesis unfolding step by simp
  qed
qed

lemma extnameLoop_plain:
  "\<forall>c \<in> set xs. \<not> isSep c \<Longrightarrow> CHR ''.'' \<notin> set xs \<Longrightarrow> startDot st = - 1 \<Longrightarrow>
   endIdx st \<noteq> - 1 \<Longrightarrow>
   extnameLoop isSep start (xs @ r) st = extnameLoop isSep start r st"
  by (induction xs) (auto simp: Let_def)

lemma extnameLoop_nodot:
  "CHR ''.'' \<notin> set xs \<Longrightarrow> startDot st = - 1 \<Longrightarrow>
   startDot (extnameLoop isSep start xs st) = - 1"
  by (induction xs arbitrary: st) (auto simp: Let_def)

lemma extnameFrom_nodot: "CHR ''.'' \<notin> set p \<Longrightarrow> extnameFrom isSep start p = []"
proof -
  assume "CHR ''.'' \<notin> set p"
  then have "CHR ''.'' \<notin> set (rev (drop start p))" by (auto dest: in_set_dropD)
  from extnameLoop_nodot [OF this, of "\<lparr>startDot = - 1, startPart = int start, endIdx = - 1,
      matchedSlash = True, preDotState = 0\<rparr>" isSep start]
  show ?thesis by (simp add: extnameFrom_def Let_def)
qed

lemma extnameFrom_append_ext:
  assumes "start < length p" and "\<not> isSep (last p)"
    and "e \<noteq> []" and "\<forall>c \<in> set e. \<not> isSep c" and "CHR ''.'' \<notin> set e"
    and "\<not> isSep (CHR ''.'')"
  shows "extnameFrom isSep start (p @ CHR ''.'' # e) = CHR ''.'' # e"
proof -
  let ?init = "\<lparr>startDot = - 1, startPart = int start, endIdx = - 1, matchedSlash = True,
                preDotState = 0\<rparr>"
  let ?n = "int (length p)"
  let ?m = "int (length e)"
  let ?q = "drop start p"
  have q: "?q \<noteq> []" and lq: "int start + int (length ?q) = ?n" and lastq: "last ?q = last p"
    using assms(1) by simp_all
  have dr: "drop start (p @ CHR ''.'' # e) = ?q @ CHR ''.'' # e"
    using assms(1) by simp
  obtain c xs where e: "rev e = c # xs" using assms(3) by (cases "rev e") auto
  have "c \<in> set e" and sub: "set xs \<subseteq> set e"
    using e by (metis list.set_intros(1) set_rev, metis set_subset_Cons set_rev)
  then have c: "\<not> isSep c" "c \<noteq> CHR ''.''"
    and xs: "\<forall>c \<in> set xs. \<not> isSep c" "CHR ''.'' \<notin> set xs"
    using assms(4,5) by auto
  have len: "int (length xs) + 1 = ?m"
    using e by (metis length_rev length_Cons of_nat_Suc add.commute)
  let ?r = "CHR ''.'' # rev ?q"
  let ?st1 = "\<lparr>startDot = - 1, startPart = int start, endIdx = ?n + 1 + ?m,
               matchedSlash = False, preDotState = 0\<rparr>"
  have idx: "int start + int (length (xs @ ?r)) + 1 = ?n + 1 + ?m"
    using lq len by simp
  have s1: "extnameLoop isSep start (rev (?q @ CHR ''.'' # e)) ?init =
            extnameLoop isSep start (xs @ ?r) ?st1"
  proof -
    have r: "rev (?q @ CHR ''.'' # e) = c # (xs @ ?r)" using e by simp
    have step: "extnameLoop isSep start (c # (xs @ ?r)) ?init =
        extnameLoop isSep start (xs @ ?r)
          \<lparr>startDot = - 1, startPart = int start,
           endIdx = int start + int (length (xs @ ?r)) + 1,
           matchedSlash = False, preDotState = 0\<rparr>"
      using c by (simp add: Let_def del: length_append)
    show ?thesis by (simp only: r step idx)
  qed
  have s2: "extnameLoop isSep start (xs @ ?r) ?st1 = extnameLoop isSep start ?r ?st1"
    by (rule extnameLoop_plain) (use xs in simp_all)
  let ?st2 = "?st1\<lparr>startDot := ?n\<rparr>"
  have s3: "extnameLoop isSep start ?r ?st1 = extnameLoop isSep start (rev ?q) ?st2"
    using assms(6) lq by (simp add: Let_def)
  obtain d ys where p: "rev ?q = d # ys" using q by (cases "rev ?q") auto
  have d: "d = last p" using p q lastq by (metis list.sel(1) hd_rev)
  let ?st3 = "?st2\<lparr>preDotState := (if d = CHR ''.'' then 1 else - 1)\<rparr>"
  have s4: "extnameLoop isSep start (rev ?q) ?st2 = extnameLoop isSep start ys ?st3"
    using d assms(2) unfolding p by (simp add: Let_def)
  have fin: "startDot (extnameLoop isSep start ys ?st3) = ?n \<and>
             endIdx (extnameLoop isSep start ys ?st3) = ?n + 1 + ?m \<and>
             preDotState (extnameLoop isSep start ys ?st3) \<noteq> 0"
    using extnameLoop_settled [of ?st3 isSep start ys] by simp
  have m: "?m \<noteq> 0" using assms(3) by simp
  show ?thesis
    unfolding extnameFrom_def dr s1 s2 s3 s4 Let_def using fin m by simp
qed

lemma posixExtname_append_ext:
  assumes "p \<noteq> []" and "last p \<noteq> CHR ''/''"
    and "e \<noteq> []" and "CHR ''/'' \<notin> set e" and "CHR ''.'' \<notin> set e"
  shows "posixExtname (p @ CHR ''.'' # e) = CHR ''.'' # e"
  unfolding posixExtname_def
  by (rule extnameFrom_append_ext) (use assms in auto)

lemma hasDrivePrefix_append:
  "hasDrivePrefix (p @ CHR ''.'' # e) \<longleftrightarrow> hasDrivePrefix p"
proof (cases p)
  case Nil
  then show ?thesis
    by (auto simp: hasDrivePrefix_def isWindowsDeviceRoot_def split: list.splits)
next
  case (Cons c0 r)
  then show ?thesis by (cases r) (simp_all add: hasDrivePrefix_def)
qed

lemma win32Extname_append_ext:
  assumes "p \<noteq> []" and "last p \<noteq> CHR ''/''" and "last p \<noteq> CHR 0x5C"
    and "hasDrivePrefix p \<longrightarrow> 2 < length p"
    and "e \<noteq> []" and "CHR ''/'' \<notin> set e" and "CHR 0x5C \<notin> set e" and "CHR ''.'' \<notin> set e"
  shows "win32Extname (p @ CHR ''.'' # e) = CHR ''.'' # e"
  unfolding win32Extname_def hasDrivePrefix_append
  by (rule extnameFrom_append_ext) (use assms in auto)

lemma pathWithoutExt_posix:
  assumes "extname h = posixExtname" and "p \<noteq> []" and "last p \<noteq> CHR ''/''"
    and "e \<noteq> []" and "CHR ''/'' \<notin> set e" and "CHR ''.'' \<notin> set e"
  shows "pathWithoutExt h (p @ CHR ''.'' # e) = p"
  by (simp add: pathWithoutExt_def assms(1) posixExtname_append_ext [OF assms(2-6)])

lemma pathWithoutExt_win32:
  assumes "extname h = win32Extname"
    and "p \<noteq> []" and "last p \<noteq> CHR ''/''" and "last p \<noteq> CHR 0x5C"
    and "hasDrivePrefix p \<longrightarrow> 2 < length p"
    and "e \<noteq> []" and "CHR ''/'' \<notin> set e" and "CHR 0x5C \<notin> set e" and "CHR ''.'' \<notin> set e"
  shows "pathWithoutExt h (p @ CHR ''.'' # e) = p"
  by (simp add: pathWithoutExt_def assms(1) win32Extname_append_ext [OF assms(2-9)])

lemma md5_length: "length (md5 s) = 32"
  by (simp add: md5_def md5_hex_def hex_byte_def Let_def split: prod.splits)

lemma md5_range_finite: "finite (range md5)"
proof -
  have "range md5 \<subseteq> {xs. set xs \<subseteq> UNIV \<and> length xs = 32}"
    using md5_length by auto
  moreover have "finite {xs :: string. set xs \<subseteq> UNIV \<and> length xs = 32}"
    by (rule finite_lists_length_eq) simp
  ultimately show ?thesis by (rule finite_subset)
qed

lemma id_path_collision:
  assumes "extname h = posixExtname \<or> extname h = win32Extname"
  shows "\<exists>q1 q2. pathWithoutExt h q1 \<noteq> pathWithoutExt h q2 \<and> id_path h q1 = id_path h q2"
proof -
  let ?A = "range (\<lambda>n. replicate n (CHR ''a''))"
  have inf: "infinite ?A"
  proof
    assume "finite ?A"
    moreover have "inj (\<lambda>n. replicate n (CHR ''a''))"
      by (rule injI) (metis length_replicate)
    ultimately show False using finite_imageD infinite_UNIV_nat by blast
  qed
  have "\<not> inj_on md5 ?A"
  proof
    assume "inj_on md5 ?A"
    then have "infinite (md5 ` ?A)" using inf finite_imageD by blast
    moreover have "md5 ` ?A \<subseteq> range md5" by blast
    ultimately show False using md5_range_finite finite_subset by blast
  qed
  then obtain x y where xy: "x \<in> ?A" "y \<in> ?A" "x \<noteq> y" "md5 x = md5 y"
    unfolding inj_on_def by blast
  have "\<And>z. z \<in> ?A \<Longrightarrow> extname h z = []"
    using assms by (auto simp: posixExtname_def win32Extname_def extnameFrom_nodot)
  then have nodot: "\<And>z. z \<in> ?A \<Longrightarrow> pathWithoutExt h z = z"
    by (simp add: pathWithoutExt_def)
  from xy nodot have "pathWithoutExt h x \<noteq> pathWithoutExt h y \<and> id_path h x = id_path h y"
    by (simp add: id_path_def)
  then show ?thesis by blast
qed

text \<open>The digests of two short strings, computed step by step.\<close>

lemma md5_words_dot_adoc:
  "md5_words ''.adoc'' = [1868849454, 32867, 0, 0, 0, 0, 0, 0, 0, 0, 0, 0, 0, 0, 40, 0]"
  by (simp add: md5_words_def md5_pad_def upt_rec)

lemma md5_block_dot_adoc:
  "md5_block md5_init [1868849454, 32867, 0, 0, 0, 0, 0, 0, 0, 0, 0, 0, 0, 0, 40, 0] =
   (10851420, 983701147, 1634888167, 3134636601)"
  by (simp add: md5_init_def md5_block_def md5_step_def md5_K_def md5_S_def rotl32_def upt_rec)

lemma md5_hex_dot_adoc:
  "md5_hex (10851420, 983701147, 1634888167, 3134636601) = ''5c94a5009b16a23ae769726139c2d6ba''"
  by (simp add: md5_hex_def hex_byte_def hex_digit_def)

lemma md5_dot_adoc: "md5 ''.adoc'' = ''5c94a5009b16a23ae769726139c2d6ba''"
  by (simp add: md5_def md5_words_dot_adoc md5_block_dot_adoc md5_hex_dot_adoc upt_rec)

lemma md5_words_dot_asciidoc:
  "md5_words ''.asciidoc'' =
   [1668505902, 1868851561, 32867, 0, 0, 0, 0, 0, 0, 0, 0, 0, 0, 0, 72, 0]"
  by (simp add: md5_words_def md5_pad_def upt_rec)

lemma md5_block_dot_asciidoc:
  "md5_block md5_init [1668505902, 1868851561, 32867, 0, 0, 0, 0, 0, 0, 0, 0, 0, 0, 0, 72, 0] =
   (2291163281, 2063329969, 1795325754, 406566672)"
  by (simp add: md5_init_def md5_block_def md5_step_def md5_K_def md5_S_def rotl32_def upt_rec)

lemma md5_hex_dot_asciidoc:
  "md5_hex (2291163281, 2063329969, 1795325754, 406566672) = ''91609088b1eafb7a3a7f026b10b73b18''"
  by (simp add: md5_hex_def hex_byte_def hex_digit_def)

lemma md5_dot_asciidoc: "md5 ''.asciidoc'' = ''91609088b1eafb7a3a7f026b10b73b18''"
  by (simp add: md5_def md5_words_dot_asciidoc md5_block_dot_asciidoc md5_hex_dot_asciidoc
      upt_rec)

lemma posixExtname_dot_adoc: "posixExtname ''.adoc'' = []"
  by code_simp

lemma posixExtname_dot_asciidoc: "posixExtname ''.asciidoc'' = []"
  by code_simp

lemma win32Extname_dot_adoc: "win32Extname ''.adoc'' = []"
  by code_simp

lemma win32Extname_dot_asciidoc: "win32Extname ''.asciidoc'' = []"
  by code_simp

lemma md5_words_docs_a:
  "md5_words ''/docs/a'' = [1668244527, 2153852787, 0, 0, 0, 0, 0, 0, 0, 0, 0, 0, 0, 0, 56, 0]"
  by (simp add: md5_words_def md5_pad_def upt_rec)

lemma md5_block_docs_a:
  "md5_block md5_init [1668244527, 2153852787, 0, 0, 0, 0, 0, 0, 0, 0, 0, 0, 0, 0, 56, 0] =
   (3373958546, 984111989, 2090618711, 1145932812)"
  by (simp add: md5_init_def md5_block_def md5_step_def md5_K_def md5_S_def rotl32_def upt_rec)

lemma md5_hex_docs_a:
  "md5_hex (3373958546, 984111989, 2090618711, 1145932812) = ''92851ac9755ba83a574f9c7c0c8c4d44''"
  by (simp add: md5_hex_def hex_byte_def hex_digit_def)

lemma md5_docs_a: "md5 ''/docs/a'' = ''92851ac9755ba83a574f9c7c0c8c4d44''"
  by (simp add: md5_def md5_words_docs_a md5_block_docs_a md5_hex_docs_a upt_rec)

lemma md5_words_docs_notes:
  "md5_words ''/docs/notes'' =
   [1668244527, 1869492083, 2155046260, 0, 0, 0, 0, 0, 0, 0, 0, 0, 0, 0, 88, 0]"
  by (simp add: md5_words_def md5_pad_def upt_rec)

lemma md5_block_docs_notes:
  "md5_block md5_init [1668244527, 1869492083, 2155046260, 0, 0, 0, 0, 0, 0, 0, 0, 0, 0, 0, 88, 0] =
   (2656295552, 77280021, 1643402193, 865048567)"
  by (simp add: md5_init_def md5_block_def md5_step_def md5_K_def md5_S_def rotl32_def upt_rec)

lemma md5_hex_docs_notes:
  "md5_hex (2656295552, 77280021, 1643402193, 865048567) = ''80da539e15339b04d153f461f7978f33''"
  by (simp add: md5_hex_def hex_byte_def hex_digit_def)

lemma md5_docs_notes: "md5 ''/docs/notes'' = ''80da539e15339b04d153f461f7978f33''"
  by (simp add: md5_def md5_words_docs_notes md5_block_docs_notes md5_hex_docs_notes upt_rec)

lemma upsertNode_absent:
  "fp \<notin> path ` set ns \<Longrightarrow> upsertNode h fp t ns = ns @ [\<lparr>nid = id_path h fp, path = fp, label = t\<rparr>]"
proof -
  assume "fp \<notin> path ` set ns"
  then have "findIndex (\<lambda>node. path node = fp) ns = None"
    by (auto simp: findIndex_None_iff)
  then show ?thesis by (simp add: upsertNode_def)
qed

lemma posixExtname_a_adoc: "posixExtname ''/docs/a.adoc'' = ''.adoc''"
  by code_simp

lemma posixExtname_a_asciidoc: "posixExtname ''/docs/a.asciidoc'' = ''.asciidoc''"
  by code_simp

lemma pathWithoutExt_a_adoc: "pathWithoutExt exampleHost ''/docs/a.adoc'' = ''/docs/a''"
  by (simp add: pathWithoutExt_def exampleHost_def posixExtname_a_adoc)

lemma pathWithoutExt_a_asciidoc: "pathWithoutExt exampleHost ''/docs/a.asciidoc'' = ''/docs/a''"
  by (simp add: pathWithoutExt_def exampleHost_def posixExtname_a_asciidoc)

lemma id_path_a_shared: "id_path exampleHost ''/docs/a.asciidoc'' = id_path exampleHost ''/docs/a.adoc''"
  by (simp add: id_path_def pathWithoutExt_a_adoc pathWithoutExt_a_asciidoc)

lemma posixExtname_notes: "posixExtname ''/docs/notes.adoc'' = ''.adoc''"
  by code_simp

lemma id_path_a: "id_path exampleHost ''/docs/a.adoc'' = ''92851ac9755ba83a574f9c7c0c8c4d44''"
  by (simp add: id_path_def pathWithoutExt_a_adoc md5_docs_a)

lemma id_path_notes:
  "id_path exampleHost ''/docs/notes.adoc'' = ''80da539e15339b04d153f461f7978f33''"
  by (simp add: id_path_def pathWithoutExt_def exampleHost_def posixExtname_notes md5_docs_notes)

lemma id_path_notes_differs:
  "id_path exampleHost ''/docs/notes.adoc'' \<noteq> id_path exampleHost ''/docs/a.adoc''"
  by (simp add: id_path_a id_path_notes)

lemma filter_other_source:
  "a \<noteq> b \<Longrightarrow>
   filter (\<lambda>e. source e = a) (filter (\<lambda>e. source e \<noteq> b) es) = filter (\<lambda>e. source e = a) es"
  by (induction es) auto

lemma parseFile_example_first:
  "edges (fst (parseFile exampleHost emptyGraph ''/docs/a.adoc'')) =
     [\<lparr>source = id_path exampleHost ''/docs/a.adoc'', target = id_path exampleHost ''/docs/c.adoc'',
       etype = Link\<rparr>,
      \<lparr>source = id_path exampleHost ''/docs/a.adoc'', target = id_path exampleHost ''/docs/b.adoc'',
       etype = IncludePartial\<rparr>]"
proof -
  let ?c = "''= Guide'' @ [CHR 0x0A] @ ''include::b.adoc[tag=x] xref:c.adoc[C]''"
  have h1: "readFile exampleHost (normalize exampleHost ''/docs/a.adoc'') = Inr ?c"
    by (simp add: exampleHost_def)
  have h2: "findAsciidocTitle (titleMaxLength exampleHost) ?c = Some ''Guide''"
    unfolding exampleHost_def by code_simp
  have links: "findAsciidocLinks ?c =
      [\<lparr>ltarget = ''c.adoc'', ltype = Link\<rparr>, \<lparr>ltarget = ''b.adoc'', ltype = IncludePartial\<rparr>]"
    by code_simp
  have n: "normalize exampleHost = (\<lambda>p. p)" by (simp add: exampleHost_def)
  have dir: "join [sep exampleHost] (butlast (splitOn (\<lambda>c. c = sep exampleHost) ''/docs/a.adoc'')) =
      ''/docs''"
    by (simp add: exampleHost_def)
  have abs: "\<not> isAbsolute exampleHost ''c.adoc''" "\<not> isAbsolute exampleHost ''b.adoc''"
    by (simp_all add: exampleHost_def startsWith_def)
  have h3: "''Guide'' \<noteq> []" by simp
  note t = parseFile_titled [OF h1 h2 h3, of emptyGraph, unfolded n dir links]
  show ?thesis
    unfolding t using abs by (simp add: linkEdge_def n emptyGraph_def)
qed

section \<open>Lemmas on the classification of includes\<close>

lemma startsWith_iff: "startsWith s kw \<longleftrightarrow> (\<exists>post. s = kw @ post)"
proof
  assume "startsWith s kw"
  then have "s = kw @ drop (length kw) s"
    by (metis startsWith_def append_take_drop_id)
  then show "\<exists>post. s = kw @ post" ..
next
  assume "\<exists>post. s = kw @ post"
  then show "startsWith s kw" by (auto simp: startsWith_def)
qed

lemma wordBoundaryTest_iff:
  assumes "kw \<noteq> []"
  shows "wordBoundaryTest kw pw s \<longleftrightarrow>
    (\<exists>pre post. s = pre @ kw @ post \<and> (if pre = [] then \<not> pw else \<not> isWordChar (last pre)))"
proof (induction s arbitrary: pw)
  case Nil
  with assms show ?case by simp
next
  case (Cons c cs)
  let ?R = "\<lambda>pw s. \<exists>pre post. s = pre @ kw @ post \<and>
                     (if pre = [] then \<not> pw else \<not> isWordChar (last pre))"
  have "?R pw (c # cs) \<longleftrightarrow> (\<not> pw \<and> startsWith (c # cs) kw) \<or> ?R (isWordChar c) cs"
  proof
    assume "?R pw (c # cs)"
    then obtain pre post where r: "c # cs = pre @ kw @ post"
      "if pre = [] then \<not> pw else \<not> isWordChar (last pre)" by blast
    show "(\<not> pw \<and> startsWith (c # cs) kw) \<or> ?R (isWordChar c) cs"
    proof (cases pre)
      case Nil
      with r show ?thesis by (auto simp: startsWith_iff)
    next
      case (Cons d pre')
      with r have "cs = pre' @ kw @ post" and "d = c" by auto
      moreover from r(2) Cons \<open>d = c\<close>
      have "if pre' = [] then \<not> isWordChar c else \<not> isWordChar (last pre')"
        by (auto split: if_splits)
      ultimately show ?thesis by blast
    qed
  next
    assume "(\<not> pw \<and> startsWith (c # cs) kw) \<or> ?R (isWordChar c) cs"
    then show "?R pw (c # cs)"
    proof
      assume a: "\<not> pw \<and> startsWith (c # cs) kw"
      then obtain post where p: "c # cs = kw @ post" by (auto simp: startsWith_iff)
      have "c # cs = [] @ kw @ post \<and>
          (if ([] :: string) = [] then \<not> pw else \<not> isWordChar (last []))"
        using a p by simp
      then show ?thesis by blast
    next
      assume "?R (isWordChar c) cs"
      then obtain pre post where r: "cs = pre @ kw @ post"
        "if pre = [] then \<not> isWordChar c else \<not> isWordChar (last pre)" by blast
      then have "c # cs = (c # pre) @ kw @ post \<and>
          (if c # pre = [] then \<not> pw else \<not> isWordChar (last (c # pre)))"
        by (auto split: if_splits)
      then show ?thesis by blast
    qed
  qed
  with Cons.IH [of "isWordChar c"] show ?case by simp
qed

lemma hasPartialIncludeAttributes_iff:
  "hasPartialIncludeAttributes attrs \<longleftrightarrow>
     occursAtWordStart attrs ''tag='' \<or> occursAtWordStart attrs ''tags='' \<or>
     occursAtWordStart attrs ''lines=''"
proof (cases "attrs = []")
  case True
  then show ?thesis by (simp add: hasPartialIncludeAttributes_def occursAtWordStart_def)
next
  case False
  have "\<And>kw. kw \<noteq> [] \<Longrightarrow> wordBoundaryTest kw False attrs \<longleftrightarrow> occursAtWordStart attrs kw"
    unfolding occursAtWordStart_def by (subst wordBoundaryTest_iff) auto
  with False show ?thesis by (simp add: hasPartialIncludeAttributes_def)
qed

lemma isSpace_not_word: "isSpace c \<Longrightarrow> \<not> isWordChar c"
  by (auto simp: isSpace_def isWordChar_def)

lemma wordBoundaryTest_leading:
  assumes "\<not> isSpace k"
  shows "wordBoundaryTest (k # ks) False (dropWhile isSpace s) = wordBoundaryTest (k # ks) False s"
proof (induction s)
  case Nil
  then show ?case by simp
next
  case (Cons c cs)
  show ?case
  proof (cases "isSpace c")
    case True
    with assms have "c \<noteq> k" by auto
    then have "\<not> startsWith (c # cs) (k # ks)" by (auto simp: startsWith_def)
    with True Cons.IH isSpace_not_word [OF True] show ?thesis by simp
  next
    case False
    then show ?thesis by simp
  qed
qed

lemma startsWith_append_spaces:
  assumes "\<forall>c \<in> set kw. \<not> isSpace c" and "\<forall>c \<in> set ws. isSpace c"
  shows "startsWith (xs @ ws) kw \<longleftrightarrow> startsWith xs kw"
proof
  assume "startsWith xs kw"
  then show "startsWith (xs @ ws) kw" by (auto simp: startsWith_iff)
next
  assume "startsWith (xs @ ws) kw"
  then obtain post where "xs @ ws = kw @ post" by (auto simp: startsWith_iff)
  then obtain us where "(xs = kw @ us \<and> us @ ws = post) \<or> (xs @ us = kw \<and> ws = us @ post)"
    by (auto simp: append_eq_append_conv2)
  then show "startsWith xs kw"
  proof
    assume "xs = kw @ us \<and> us @ ws = post"
    then show ?thesis by (auto simp: startsWith_iff)
  next
    assume b: "xs @ us = kw \<and> ws = us @ post"
    have "us = []"
    proof (cases us)
      case Nil
      then show ?thesis .
    next
      case (Cons u us')
      with b have "u \<in> set kw" and "u \<in> set ws" by auto
      with assms show ?thesis by blast
    qed
    with b show ?thesis by (auto simp: startsWith_iff)
  qed
qed

lemma wordBoundaryTest_spaces:
  assumes "\<forall>c \<in> set kw. \<not> isSpace c" and "kw \<noteq> []" and "\<forall>c \<in> set ws. isSpace c"
  shows "\<not> wordBoundaryTest kw pw ws"
  using assms(3)
proof (induction ws arbitrary: pw)
  case Nil
  then show ?case by simp
next
  case (Cons w ws)
  from assms(1,2) obtain k ks where kw: "kw = k # ks" "\<not> isSpace k" by (cases kw) auto
  from Cons.prems have "isSpace w" by simp
  with kw have "\<not> startsWith (w # ws) kw" by (auto simp: startsWith_def)
  with Cons show ?case by simp
qed

lemma wordBoundaryTest_trailing:
  assumes "\<forall>c \<in> set kw. \<not> isSpace c" and "kw \<noteq> []" and "\<forall>c \<in> set ws. isSpace c"
  shows "wordBoundaryTest kw pw (s @ ws) = wordBoundaryTest kw pw s"
proof (induction s arbitrary: pw)
  case Nil
  from wordBoundaryTest_spaces [OF assms] show ?case by simp
next
  case (Cons c cs)
  have "startsWith ((c # cs) @ ws) kw \<longleftrightarrow> startsWith (c # cs) kw"
    by (rule startsWith_append_spaces [OF assms(1,3)])
  with Cons.IH show ?case by simp
qed

lemma wordBoundaryTest_trim:
  assumes "\<not> isSpace k" and "\<forall>c \<in> set ks. \<not> isSpace c"
  shows "wordBoundaryTest (k # ks) False (trim s) = wordBoundaryTest (k # ks) False s"
proof -
  let ?s' = "dropWhile isSpace s"
  let ?ws = "rev (takeWhile isSpace (rev ?s'))"
  have "rev (dropWhile isSpace (rev ?s')) @ rev (takeWhile isSpace (rev ?s')) = rev (rev ?s')"
    by (metis rev_append takeWhile_dropWhile_id)
  then have dec: "?s' = trim s @ ?ws" by (simp add: trim_def)
  have sp: "\<forall>c \<in> set ?ws. isSpace c" by (auto dest: set_takeWhileD)
  have kw: "\<forall>c \<in> set (k # ks). \<not> isSpace c" using assms by simp
  have "wordBoundaryTest (k # ks) False (trim s @ ?ws) = wordBoundaryTest (k # ks) False (trim s)"
    by (rule wordBoundaryTest_trailing [OF kw _ sp]) simp
  with dec have "wordBoundaryTest (k # ks) False (trim s) = wordBoundaryTest (k # ks) False ?s'"
    by simp
  with wordBoundaryTest_leading [OF assms(1), of ks s] show ?thesis by simp
qed

lemma hasPartialIncludeAttributes_trim:
  "hasPartialIncludeAttributes (trim s) = hasPartialIncludeAttributes s"
proof -
  have t: "wordBoundaryTest ''tag='' False (trim s) = wordBoundaryTest ''tag='' False s"
    by (rule wordBoundaryTest_trim) (simp_all add: isSpace_def)
  have ts: "wordBoundaryTest ''tags='' False (trim s) = wordBoundaryTest ''tags='' False s"
    by (rule wordBoundaryTest_trim) (simp_all add: isSpace_def)
  have l: "wordBoundaryTest ''lines='' False (trim s) = wordBoundaryTest ''lines='' False s"
    by (rule wordBoundaryTest_trim) (simp_all add: isSpace_def)
  show ?thesis
  proof (cases "trim s = []")
    case True
    with t ts l have "\<not> wordBoundaryTest ''tag='' False s"
      "\<not> wordBoundaryTest ''tags='' False s" "\<not> wordBoundaryTest ''lines='' False s"
      by simp_all
    with True show ?thesis by (simp add: hasPartialIncludeAttributes_def)
  next
    case False
    then have "s \<noteq> []" by (auto simp: trim_def)
    with False t ts l show ?thesis by (simp add: hasPartialIncludeAttributes_def)
  qed
qed

lemma occursAtWordStart_contains: "occursAtWordStart s kw \<Longrightarrow> containsSubstring s kw"
  by (auto simp: occursAtWordStart_def containsSubstring_def)

lemma append4_ex: "\<exists>others. a @ b @ c @ d = others @ d"
proof -
  have "a @ b @ c @ d = (a @ b @ c) @ d" by simp
  then show ?thesis by (rule exI)
qed

section \<open>Lemmas on the view\<close>

lemma sameNodes_iff: "sameNodes previous next \<longleftrightarrow> previous = [] \<and> next = []"
proof (cases "length next = length previous")
  case False
  then show ?thesis by (auto simp: sameNodes_def)
next
  case True
  have never: "\<And>found node. \<not> (\<not> (falsy found \<or> found \<noteq> titleOf node))"
    by (auto simp: falsy_def titleOf_def)
  have "sameNodes previous next \<longleftrightarrow> list_all (\<lambda>node. False) next"
    using True never by (simp add: sameNodes_def Let_def)
  also have "\<dots> \<longleftrightarrow> next = []" by (cases "next") simp_all
  finally show ?thesis using True by auto
qed

section \<open>Lemmas on Promise.all and the directory scan\<close>

lemma foldl_max_ge: "(a :: nat) \<le> foldl max a xs \<and> (\<forall>x \<in> set xs. x \<le> foldl max a xs)"
proof (induction xs arbitrary: a)
  case Nil
  then show ?case by simp
next
  case (Cons x xs)
  from Cons.IH [of "max a x"] show ?case by auto
qed

lemma foldl_earliest:
  "foldl (\<lambda>first p. if at p < at first then p else first) r rs \<in> set (r # rs) \<and>
   (\<forall>p \<in> set (r # rs). at (foldl (\<lambda>first p. if at p < at first then p else first) r rs) \<le> at p)"
proof (induction rs arbitrary: r)
  case Nil
  then show ?case by simp
next
  case (Cons x rs)
  let ?r' = "if at x < at r then x else r"
  from Cons.IH [of ?r'] show ?case by (auto split: if_splits)
qed

lemma promiseAll_fulfilled:
  assumes "\<forall>p \<in> set ps. \<not> isl (outcome p)"
  shows "outcome (promiseAll now ps) = Inr () \<and> now \<le> at (promiseAll now ps) \<and>
         (\<forall>p \<in> set ps. at p \<le> at (promiseAll now ps))"
proof -
  from assms have "filter (\<lambda>p. isl (outcome p)) ps = []" by (simp add: filter_empty_conv)
  then have "promiseAll now ps = \<lparr>at = foldl max now (map at ps), outcome = Inr ()\<rparr>"
    by (simp add: promiseAll_def)
  with foldl_max_ge [of now "map at ps"] show ?thesis by simp
qed

lemma promiseAll_rejected:
  assumes "\<exists>p \<in> set ps. isl (outcome p)"
  shows "promiseAll now ps \<in> set ps \<and> isl (outcome (promiseAll now ps)) \<and>
         (\<forall>p \<in> set ps. isl (outcome p) \<longrightarrow> at (promiseAll now ps) \<le> at p)"
proof -
  from assms obtain r rs where f: "filter (\<lambda>p. isl (outcome p)) ps = r # rs"
    by (cases "filter (\<lambda>p. isl (outcome p)) ps") (auto simp: filter_empty_conv)
  then have pa: "promiseAll now ps = foldl (\<lambda>first p. if at p < at first then p else first) r rs"
    by (simp add: promiseAll_def)
  have "set (r # rs) = {p \<in> set ps. isl (outcome p)}"
    unfolding f [symmetric] by (rule set_filter)
  then have mem: "\<And>p. p \<in> set (r # rs) \<longleftrightarrow> p \<in> set ps \<and> isl (outcome p)"
    by blast
  from foldl_earliest [of r rs] show ?thesis unfolding pa using mem by blast
qed

lemma launch_example:
  "launch exampleHost cb 0 = [(''/docs/a.adoc'', cb 0 ''/docs/a.adoc''),
                              (''/docs/notes.adoc'', cb 0 ''/docs/notes.adoc'')]"
  by (simp add: launch_def exampleHost_def getFileTypesSetting_def startsWith_def)

section \<open>Properties of the consistency filter\<close>

lemma exists_iff: "exists graph i \<longleftrightarrow> i \<in> nid ` set (nodes graph)"
  by (auto simp: exists_def find_None_iff)

text \<open>
  Claim C5. After \<open>filterNonExistingEdges\<close> the nodes are untouched, an edge remains
  exactly when it was an edge before and both its source id and its target id are the id
  of a node of the graph, the remaining edges keep their order and multiplicity, and
  every remaining edge has both endpoints among the node ids.
\<close>

theorem filterNonExistingEdges_exact:
  "nodes (filterNonExistingEdges g) = nodes g \<and>
   edges (filterNonExistingEdges g) =
     filter (\<lambda>e. source e \<in> nid ` set (nodes g) \<and> target e \<in> nid ` set (nodes g)) (edges g) \<and>
   (\<forall>e. e \<in> set (edges (filterNonExistingEdges g)) \<longleftrightarrow>
        (e \<in> set (edges g) \<and>
         source e \<in> nid ` set (nodes (filterNonExistingEdges g)) \<and>
         target e \<in> nid ` set (nodes (filterNonExistingEdges g))))"
  by (auto simp: filterNonExistingEdges_def exists_iff)

section \<open>Path-scoped re-parse\<close>

text \<open>
  Claim C1, as stated, fails in its last clause: the contribution of another file is
  disturbed when that file has the same id. In the example corpus \<^verbatim>\<open>/docs/a.adoc\<close>
  contributes two edges; parsing \<^verbatim>\<open>/docs/a.asciidoc\<close>, a different file with the same
  path up to the extension and so the same id, removes both, and the graph is left
  without edges.
\<close>

theorem parseFile_shared_id_counterexample:
  "''/docs/a.adoc'' \<noteq> ''/docs/a.asciidoc'' \<and>
   edges (fst (parseFile exampleHost emptyGraph ''/docs/a.adoc'')) =
     [\<lparr>source = id_path exampleHost ''/docs/a.adoc'', target = id_path exampleHost ''/docs/c.adoc'',
       etype = Link\<rparr>,
      \<lparr>source = id_path exampleHost ''/docs/a.adoc'', target = id_path exampleHost ''/docs/b.adoc'',
       etype = IncludePartial\<rparr>] \<and>
   edges (fst (parseFile exampleHost (fst (parseFile exampleHost emptyGraph ''/docs/a.adoc''))
                 ''/docs/a.asciidoc'')) = []"
proof -
  have h1: "readFile exampleHost (normalize exampleHost ''/docs/a.asciidoc'') = Inr ''= Guide two''"
    by (simp add: exampleHost_def)
  have h2: "findAsciidocTitle (titleMaxLength exampleHost) ''= Guide two'' = Some ''Guide two''"
    unfolding exampleHost_def by code_simp
  have links: "findAsciidocLinks ''= Guide two'' = []" by code_simp
  have n: "normalize exampleHost = (\<lambda>p. p)" by (simp add: exampleHost_def)
  have "edges (fst (parseFile exampleHost (fst (parseFile exampleHost emptyGraph ''/docs/a.adoc''))
                 ''/docs/a.asciidoc'')) = []"
    by (simp add: parseFile_titled [OF h1 h2] links n parseFile_example_first id_path_a_shared)
  with parseFile_example_first show ?thesis by simp
qed

text \<open>
  Claim C1, amended. When the file at \<open>p\<close> is read and its content yields a non-empty
  title, \<open>parseFile\<close> leaves the graph with the old edges whose source is not the id of
  the normalized path, in their order, followed by one edge per extracted reference, in
  extraction order. Each new edge has the id of the path as source, the id of the
  resolved target as target (the normalized target when it is absolute, otherwise the
  normalized join of the file's directory and the target) and the type of the reference.
  So the edges of that source are exactly the new ones and the edges of every other
  source are unchanged. The edges contributed by another file \<open>q\<close> are therefore
  unchanged when the id of \<open>q\<close> differs from the id of the path; when \<open>q\<close> has the same
  id, its edges are replaced like the file's own. The nodes of every other path are
  unchanged.
\<close>

theorem parseFile_replaces_own_edges:
  assumes "readFile h (normalize h p) = Inr content"
    and "findAsciidocTitle (titleMaxLength h) content = Some t"
    and "t \<noteq> []"
  shows "(let fp = normalize h p;
              dir = join [sep h] (butlast (splitOn (\<lambda>c. c = sep h) fp));
              resolve = (\<lambda>l. if isAbsolute h (ltarget l) then normalize h (ltarget l)
                             else normalize h (dir @ ''/'' @ ltarget l));
              new = map (\<lambda>l. \<lparr>source = id_path h fp, target = id_path h (resolve l),
                                etype = ltype l\<rparr>) (findAsciidocLinks content);
              g' = fst (parseFile h g p)
          in edges g' = filter (\<lambda>e. source e \<noteq> id_path h fp) (edges g) @ new \<and>
             filter (\<lambda>e. source e = id_path h fp) (edges g') = new \<and>
             filter (\<lambda>e. source e \<noteq> id_path h fp) (edges g') =
               filter (\<lambda>e. source e \<noteq> id_path h fp) (edges g) \<and>
             (\<forall>q. id_path h q \<noteq> id_path h fp \<longrightarrow>
                  filter (\<lambda>e. source e = id_path h q) (edges g') =
                  filter (\<lambda>e. source e = id_path h q) (edges g)) \<and>
             (\<forall>q. id_path h q = id_path h fp \<longrightarrow>
                  filter (\<lambda>e. source e = id_path h q) (edges g') = new) \<and>
             filter (\<lambda>n. path n \<noteq> fp) (nodes g') = filter (\<lambda>n. path n \<noteq> fp) (nodes g) \<and>
             snd (parseFile h g p) = Inr ())"
proof -
  let ?fp = "normalize h p"
  let ?dir = "join [sep h] (butlast (splitOn (\<lambda>c. c = sep h) ?fp))"
  let ?resolve = "\<lambda>l. if isAbsolute h (ltarget l) then normalize h (ltarget l)
                      else normalize h (?dir @ ''/'' @ ltarget l)"
  let ?new = "map (\<lambda>l. \<lparr>source = id_path h ?fp, target = id_path h (?resolve l), etype = ltype l\<rparr>)
                (findAsciidocLinks content)"
  let ?old = "filter (\<lambda>e. source e \<noteq> id_path h ?fp) (edges g)"
  have le: "linkEdge h ?fp ?dir = (\<lambda>l. \<lparr>source = id_path h ?fp, target = id_path h (?resolve l),
                                          etype = ltype l\<rparr>)"
    by (rule ext) (simp add: linkEdge_def Let_def)
  have pf: "parseFile h g p =
      (\<lparr>nodes = upsertNode h ?fp t (nodes g), edges = ?old @ ?new\<rparr>, Inr ())"
    using parseFile_titled [OF assms, of g] by (simp only: le)
  have own: "filter (\<lambda>e. source e = id_path h ?fp) ?new = ?new"
    by (simp add: filter_map o_def)
  have other: "filter (\<lambda>e. source e \<noteq> id_path h ?fp) ?new = []"
    by (simp add: filter_map o_def)
  have q_other: "\<forall>q. id_path h q \<noteq> id_path h ?fp \<longrightarrow>
      filter (\<lambda>e. source e = id_path h q) (?old @ ?new) =
      filter (\<lambda>e. source e = id_path h q) (edges g)"
  proof (intro allI impI)
    fix q
    assume d: "id_path h q \<noteq> id_path h ?fp"
    then have "filter (\<lambda>e. source e = id_path h q) ?new = []"
      by (auto simp: filter_empty_conv)
    with filter_other_source [OF d, of "edges g"]
    show "filter (\<lambda>e. source e = id_path h q) (?old @ ?new) =
          filter (\<lambda>e. source e = id_path h q) (edges g)"
      by simp
  qed
  have q_same: "\<forall>q. id_path h q = id_path h ?fp \<longrightarrow>
      filter (\<lambda>e. source e = id_path h q) (?old @ ?new) = ?new"
    using own by simp
  have e1: "filter (\<lambda>e. source e = id_path h ?fp) (?old @ ?new) = ?new"
    using own by simp
  have e2: "filter (\<lambda>e. source e \<noteq> id_path h ?fp) (?old @ ?new) = ?old"
    using other by simp
  show ?thesis
    unfolding Let_def pf fst_conv snd_conv Graph.select_convs
    using e1 e2 q_other q_same upsertNode_other [of ?fp h t "nodes g"] by blast
qed

theorem parseFile_replaces_own_edges_witness:
  "readFile exampleHost (normalize exampleHost ''/docs/a.adoc'') =
     Inr (''= Guide'' @ [CHR 0x0A] @ ''include::b.adoc[tag=x] xref:c.adoc[C]'') \<and>
   findAsciidocTitle (titleMaxLength exampleHost)
     (''= Guide'' @ [CHR 0x0A] @ ''include::b.adoc[tag=x] xref:c.adoc[C]'') = Some ''Guide'' \<and>
   ''Guide'' \<noteq> [] \<and>
   id_path exampleHost ''/docs/notes.adoc'' \<noteq> id_path exampleHost (normalize exampleHost ''/docs/a.adoc'') \<and>
   id_path exampleHost ''/docs/a.asciidoc'' = id_path exampleHost (normalize exampleHost ''/docs/a.adoc'') \<and>
   edges (fst (parseFile exampleHost exampleGraph ''/docs/a.adoc'')) =
     filter (\<lambda>e. source e \<noteq> id_path exampleHost ''/docs/a.adoc'') (edges exampleGraph) @
     [\<lparr>source = id_path exampleHost ''/docs/a.adoc'', target = id_path exampleHost ''/docs/c.adoc'',
       etype = Link\<rparr>,
      \<lparr>source = id_path exampleHost ''/docs/a.adoc'', target = id_path exampleHost ''/docs/b.adoc'',
       etype = IncludePartial\<rparr>] \<and>
   filter (\<lambda>e. source e = id_path exampleHost ''/docs/notes.adoc'')
     (edges (fst (parseFile exampleHost exampleGraph ''/docs/a.adoc''))) =
   filter (\<lambda>e. source e = id_path exampleHost ''/docs/notes.adoc'') (edges exampleGraph) \<and>
   filter (\<lambda>e. source e = id_path exampleHost ''/docs/a.asciidoc'')
     (edges (fst (parseFile exampleHost exampleGraph ''/docs/a.adoc''))) =
     [\<lparr>source = id_path exampleHost ''/docs/a.adoc'', target = id_path exampleHost ''/docs/c.adoc'',
       etype = Link\<rparr>,
      \<lparr>source = id_path exampleHost ''/docs/a.adoc'', target = id_path exampleHost ''/docs/b.adoc'',
       etype = IncludePartial\<rparr>]"
proof -
  let ?c = "''= Guide'' @ [CHR 0x0A] @ ''include::b.adoc[tag=x] xref:c.adoc[C]''"
  let ?new = "[\<lparr>source = id_path exampleHost ''/docs/a.adoc'',
                 target = id_path exampleHost ''/docs/c.adoc'', etype = Link\<rparr>,
               \<lparr>source = id_path exampleHost ''/docs/a.adoc'',
                 target = id_path exampleHost ''/docs/b.adoc'', etype = IncludePartial\<rparr>]"
  have h1: "readFile exampleHost (normalize exampleHost ''/docs/a.adoc'') = Inr ?c"
    by (simp add: exampleHost_def)
  have h2: "findAsciidocTitle (titleMaxLength exampleHost) ?c = Some ''Guide''"
    unfolding exampleHost_def by code_simp
  have h3: "''Guide'' \<noteq> []" by simp
  have links: "findAsciidocLinks ?c =
      [\<lparr>ltarget = ''c.adoc'', ltype = Link\<rparr>, \<lparr>ltarget = ''b.adoc'', ltype = IncludePartial\<rparr>]"
    by code_simp
  have n: "normalize exampleHost ''/docs/a.adoc'' = ''/docs/a.adoc''"
    by (simp add: exampleHost_def)
  have dir: "join [sep exampleHost] (butlast (splitOn (\<lambda>c. c = sep exampleHost) ''/docs/a.adoc'')) =
      ''/docs''"
    by (simp add: exampleHost_def)
  have abs: "\<not> isAbsolute exampleHost ''c.adoc''" "\<not> isAbsolute exampleHost ''b.adoc''"
    by (simp_all add: exampleHost_def startsWith_def)
  have nn: "normalize exampleHost (''/docs'' @ ''/'' @ ''c.adoc'') = ''/docs/c.adoc''"
    "normalize exampleHost (''/docs'' @ ''/'' @ ''b.adoc'') = ''/docs/b.adoc''"
    by (simp_all add: exampleHost_def)
  have new: "map (\<lambda>l. \<lparr>source = id_path exampleHost ''/docs/a.adoc'',
                       target = id_path exampleHost
                         (if isAbsolute exampleHost (ltarget l)
                          then normalize exampleHost (ltarget l)
                          else normalize exampleHost (''/docs'' @ ''/'' @ ltarget l)),
                       etype = ltype l\<rparr>) (findAsciidocLinks ?c) = ?new"
    unfolding links using abs nn by simp
  note t = parseFile_replaces_own_edges [OF h1 h2 h3, of exampleGraph,
      unfolded Let_def n dir new]
  have d: "id_path exampleHost ''/docs/notes.adoc'' \<noteq> id_path exampleHost ''/docs/a.adoc''"
    by (rule id_path_notes_differs)
  have s: "id_path exampleHost ''/docs/a.asciidoc'' = id_path exampleHost ''/docs/a.adoc''"
    by (rule id_path_a_shared)
  note c4 = t [THEN conjunct2, THEN conjunct2, THEN conjunct2, THEN conjunct1]
  note c5 = t [THEN conjunct2, THEN conjunct2, THEN conjunct2, THEN conjunct2, THEN conjunct1]
  have k: "filter (\<lambda>e. source e = id_path exampleHost ''/docs/notes.adoc'')
       (edges (fst (parseFile exampleHost exampleGraph ''/docs/a.adoc''))) =
     filter (\<lambda>e. source e = id_path exampleHost ''/docs/notes.adoc'') (edges exampleGraph)"
    by (rule mp [OF spec [OF c4] d])
  have r: "filter (\<lambda>e. source e = id_path exampleHost ''/docs/a.asciidoc'')
       (edges (fst (parseFile exampleHost exampleGraph ''/docs/a.adoc''))) = ?new"
    by (rule mp [OF spec [OF c5] s])
  from h1 h2 h3 d s t [THEN conjunct1] k r show ?thesis by (simp only: n simp_thms)
qed

text \<open>
  Claim C2. Running \<open>parseFile\<close> a second time on the same path with the same content
  leaves the edges as the first run left them, so the edges whose source is the id of
  the path are the same set. When the content yields a title, the whole graph is the
  same after the second run. This also holds, whatever the content or the outcome of the
  read, on a graph whose nodes have unique paths: the node found for the path is the
  same (id, path and label), and the paths are still unique after the run.
\<close>

theorem parseFile_idempotent:
  "(let fp = normalize h p;
        g1 = fst (parseFile h g p);
        g2 = fst (parseFile h g1 p)
    in edges g2 = edges g1 \<and>
       set (filter (\<lambda>e. source e = id_path h fp) (edges g2)) =
         set (filter (\<lambda>e. source e = id_path h fp) (edges g1)) \<and>
       ((\<exists>content t. readFile h fp = Inr content \<and>
            findAsciidocTitle (titleMaxLength h) content = Some t \<and> t \<noteq> []) \<longrightarrow>
          g2 = g1) \<and>
       (distinct (map path (nodes g)) \<longrightarrow>
          g2 = g1 \<and>
          find (\<lambda>n. path n = fp) (nodes g2) = find (\<lambda>n. path n = fp) (nodes g1) \<and>
          distinct (map path (nodes g1))))"
proof -
  have a: "edges (fst (parseFile h (fst (parseFile h g p)) p)) = edges (fst (parseFile h g p))"
    by (rule parseFile_twice_edges)
  have b: "(\<exists>content t. readFile h (normalize h p) = Inr content \<and>
            findAsciidocTitle (titleMaxLength h) content = Some t \<and> t \<noteq> []) \<longrightarrow>
      fst (parseFile h (fst (parseFile h g p)) p) = fst (parseFile h g p)"
    using parseFile_twice_titled [of h p _ _ g] by auto
  have c: "distinct (map path (nodes g)) \<longrightarrow>
      fst (parseFile h (fst (parseFile h g p)) p) = fst (parseFile h g p) \<and>
      distinct (map path (nodes (fst (parseFile h g p))))"
    using parseFile_twice [of g h p] parseFile_distinct_paths [of g h p] by simp
  from a b c show ?thesis unfolding Let_def by simp
qed

theorem parseFile_idempotent_witness:
  "distinct (map path (nodes exampleGraph)) \<and>
   readFile exampleHost (normalize exampleHost ''/docs/a.adoc'') =
     Inr (''= Guide'' @ [CHR 0x0A] @ ''include::b.adoc[tag=x] xref:c.adoc[C]'') \<and>
   findAsciidocTitle (titleMaxLength exampleHost)
     (''= Guide'' @ [CHR 0x0A] @ ''include::b.adoc[tag=x] xref:c.adoc[C]'') = Some ''Guide'' \<and>
   fst (parseFile exampleHost (fst (parseFile exampleHost exampleGraph ''/docs/a.adoc''))
          ''/docs/a.adoc'') =
   fst (parseFile exampleHost exampleGraph ''/docs/a.adoc'')"
proof -
  let ?c = "''= Guide'' @ [CHR 0x0A] @ ''include::b.adoc[tag=x] xref:c.adoc[C]''"
  have d: "distinct (map path (nodes exampleGraph))" by (simp add: exampleGraph_def)
  have h1: "readFile exampleHost (normalize exampleHost ''/docs/a.adoc'') = Inr ?c"
    by (simp add: exampleHost_def)
  have h2: "findAsciidocTitle (titleMaxLength exampleHost) ?c = Some ''Guide''"
    unfolding exampleHost_def by code_simp
  note t = parseFile_idempotent [of exampleHost "''/docs/a.adoc''" exampleGraph, unfolded Let_def]
  note e = mp [OF t [THEN conjunct2, THEN conjunct2, THEN conjunct2] d, THEN conjunct1]
  from d h1 h2 e show ?thesis by simp
qed



text \<open>
  Claim C7. When reading the file fails, \<open>parseFile\<close> rejects with the reason of the
  failure and the graph is the one it was given: no node and no edge has changed.
\<close>

theorem parseFile_read_failure:
  "readFile h (normalize h p) = Inl err \<Longrightarrow> parseFile h g p = (g, Inl err)"
  by (simp add: parseFile_def Let_def)

theorem parseFile_read_failure_witness:
  "readFile exampleHost (normalize exampleHost ''/docs/missing.adoc'') = Inl ''ENOENT'' \<and>
   parseFile exampleHost exampleGraph ''/docs/missing.adoc'' = (exampleGraph, Inl ''ENOENT'')"
proof -
  have h: "readFile exampleHost (normalize exampleHost ''/docs/missing.adoc'') = Inl ''ENOENT''"
    by (simp add: exampleHost_def)
  from parseFile_read_failure [OF h] h show ?thesis by simp
qed

text \<open>
  Claim C10. \<open>parseFile\<close> looks a node up by its path, never by its id. When two files
  with different normalized paths and the same path without extension are parsed, each
  yielding a title, into a graph that has no node for either path, the graph gains two
  nodes with the same id and different paths. The files \<^verbatim>\<open>/docs/a.adoc\<close> and
  \<^verbatim>\<open>/docs/a.asciidoc\<close> of the example corpus are such a pair.
\<close>

theorem same_id_for_two_paths:
  assumes "readFile h (normalize h p1) = Inr c1"
    and "findAsciidocTitle (titleMaxLength h) c1 = Some t1" and "t1 \<noteq> []"
    and "readFile h (normalize h p2) = Inr c2"
    and "findAsciidocTitle (titleMaxLength h) c2 = Some t2" and "t2 \<noteq> []"
    and "normalize h p1 \<noteq> normalize h p2"
    and "pathWithoutExt h (normalize h p1) = pathWithoutExt h (normalize h p2)"
    and "normalize h p1 \<notin> path ` set (nodes g)"
    and "normalize h p2 \<notin> path ` set (nodes g)"
  shows "(let fp1 = normalize h p1; fp2 = normalize h p2;
              n1 = \<lparr>nid = id_path h fp1, path = fp1, label = t1\<rparr>;
              n2 = \<lparr>nid = id_path h fp2, path = fp2, label = t2\<rparr>;
              g2 = fst (parseFile h (fst (parseFile h g p1)) p2)
          in nodes g2 = nodes g @ [n1, n2] \<and> nid n1 = nid n2 \<and> path n1 \<noteq> path n2)"
proof -
  let ?fp1 = "normalize h p1" and ?fp2 = "normalize h p2"
  let ?n1 = "\<lparr>nid = id_path h ?fp1, path = ?fp1, label = t1\<rparr>"
  have g1: "nodes (fst (parseFile h g p1)) = nodes g @ [?n1]"
    using assms(9) by (simp add: parseFile_titled [OF assms(1,2,3)] upsertNode_absent)
  have "?fp2 \<notin> path ` set (nodes g @ [?n1])"
    using assms(7,10) by auto
  then have "nodes (fst (parseFile h (fst (parseFile h g p1)) p2)) =
      (nodes g @ [?n1]) @ [\<lparr>nid = id_path h ?fp2, path = ?fp2, label = t2\<rparr>]"
    by (simp add: parseFile_titled [OF assms(4,5,6)] g1 upsertNode_absent del: append_assoc)
  then show ?thesis
    using assms(7,8) by (simp add: Let_def id_path_def)
qed

theorem same_id_for_two_paths_witness:
  "nodes (fst (parseFile exampleHost (fst (parseFile exampleHost emptyGraph ''/docs/a.adoc''))
                 ''/docs/a.asciidoc'')) =
     [\<lparr>nid = id_path exampleHost ''/docs/a.adoc'', path = ''/docs/a.adoc'', label = ''Guide''\<rparr>,
      \<lparr>nid = id_path exampleHost ''/docs/a.asciidoc'', path = ''/docs/a.asciidoc'', label = ''Guide two''\<rparr>] \<and>
   id_path exampleHost ''/docs/a.adoc'' = id_path exampleHost ''/docs/a.asciidoc'' \<and>
   ''/docs/a.adoc'' \<noteq> ''/docs/a.asciidoc''"
proof -
  let ?c1 = "''= Guide'' @ [CHR 0x0A] @ ''include::b.adoc[tag=x] xref:c.adoc[C]''"
  have n: "normalize exampleHost = (\<lambda>p. p)" by (simp add: exampleHost_def)
  have r1: "readFile exampleHost (normalize exampleHost ''/docs/a.adoc'') = Inr ?c1"
    by (simp add: exampleHost_def)
  have t1: "findAsciidocTitle (titleMaxLength exampleHost) ?c1 = Some ''Guide''"
    unfolding exampleHost_def by code_simp
  have r2: "readFile exampleHost (normalize exampleHost ''/docs/a.asciidoc'') = Inr ''= Guide two''"
    by (simp add: exampleHost_def)
  have t2: "findAsciidocTitle (titleMaxLength exampleHost) ''= Guide two'' = Some ''Guide two''"
    unfolding exampleHost_def by code_simp
  have ne: "normalize exampleHost ''/docs/a.adoc'' \<noteq> normalize exampleHost ''/docs/a.asciidoc''"
    by (simp add: n)
  have st: "pathWithoutExt exampleHost (normalize exampleHost ''/docs/a.adoc'') =
            pathWithoutExt exampleHost (normalize exampleHost ''/docs/a.asciidoc'')"
    by (simp add: n pathWithoutExt_a_adoc pathWithoutExt_a_asciidoc)
  have a1: "normalize exampleHost ''/docs/a.adoc'' \<notin> path ` set (nodes emptyGraph)"
    and a2: "normalize exampleHost ''/docs/a.asciidoc'' \<notin> path ` set (nodes emptyGraph)"
    by (simp_all add: emptyGraph_def)
  from same_id_for_two_paths [OF r1 t1 _ r2 t2 _ ne st a1 a2]
  show ?thesis by (simp add: Let_def n emptyGraph_def)
qed

section \<open>Classification of includes\<close>

text \<open>
  Claim C3, as stated, fails: the attribute list \<^verbatim>\<open>xtag=1\<close> contains the substring
  \<^verbatim>\<open>tag=\<close>, and the include is classified as a full include, because the patterns
  of \<open>hasPartialIncludeAttributes\<close> start with \<^verbatim>\<open>\b\<close>.
\<close>

theorem include_substring_counterexample:
  "containsSubstring ''xtag=1'' ''tag='' \<and>
   findAsciidocLinks ''include::a.adoc[xtag=1]'' = [\<lparr>ltarget = ''a.adoc'', ltype = Include\<rparr>]"
proof -
  have "''xtag=1'' = ''x'' @ ''tag='' @ ''1''" by simp
  then have "containsSubstring ''xtag=1'' ''tag=''"
    unfolding containsSubstring_def by blast
  moreover have "findAsciidocLinks ''include::a.adoc[xtag=1]'' =
      [\<lparr>ltarget = ''a.adoc'', ltype = Include\<rparr>]"
    by code_simp
  ultimately show ?thesis by simp
qed

text \<open>
  Claim C3, amended. The attributes indicate a partial include exactly when \<^verbatim>\<open>tag=\<close>,
  \<^verbatim>\<open>tags=\<close> or \<^verbatim>\<open>lines=\<close> occurs in them at the start of a word; then they also contain
  it as a substring, but not the other way round. The references that
  \<open>findAsciidocLinks\<close> returns end with one reference per match of the include pattern
  whose target is not external, in the order of the matches, and each is
  \<open>IncludePartial\<close> when the text between the brackets has such an occurrence and
  \<open>Include\<close> otherwise (trimming that text makes no difference).
\<close>

theorem include_classification:
  "(hasPartialIncludeAttributes attrs \<longleftrightarrow>
      occursAtWordStart attrs ''tag='' \<or> occursAtWordStart attrs ''tags='' \<or>
      occursAtWordStart attrs ''lines='') \<and>
   (hasPartialIncludeAttributes attrs \<longrightarrow>
      containsSubstring attrs ''tag='' \<or> containsSubstring attrs ''tags='' \<or>
      containsSubstring attrs ''lines='') \<and>
   (\<exists>others. findAsciidocLinks content =
      others @
      map (\<lambda>(g1, g2). \<lparr>ltarget = trim g1,
                         ltype = (if occursAtWordStart g2 ''tag='' \<or>
                                     occursAtWordStart g2 ''tags='' \<or>
                                     occursAtWordStart g2 ''lines=''
                                  then IncludePartial else Include)\<rparr>)
        (filter (\<lambda>(g1, g2). \<not> isExternalUrl (trim g1))
           (scanMacro ''include::'' False False content)))"
proof -
  have a: "hasPartialIncludeAttributes attrs \<longrightarrow>
      containsSubstring attrs ''tag='' \<or> containsSubstring attrs ''tags='' \<or>
      containsSubstring attrs ''lines=''"
    using hasPartialIncludeAttributes_iff [of attrs] occursAtWordStart_contains by blast
  have b: "\<exists>others. findAsciidocLinks content =
      others @
      map (\<lambda>(g1, g2). \<lparr>ltarget = trim g1,
                         ltype = (if occursAtWordStart g2 ''tag='' \<or>
                                     occursAtWordStart g2 ''tags='' \<or>
                                     occursAtWordStart g2 ''lines=''
                                  then IncludePartial else Include)\<rparr>)
        (filter (\<lambda>(g1, g2). \<not> isExternalUrl (trim g1))
           (scanMacro ''include::'' False False content))"
    unfolding findAsciidocLinks_def Let_def hasPartialIncludeAttributes_trim
    unfolding hasPartialIncludeAttributes_iff
    by (rule append4_ex)
  from a b hasPartialIncludeAttributes_iff [of attrs] show ?thesis by blast
qed

theorem include_classification_witness:
  "hasPartialIncludeAttributes ''leveloffset=+1,tags=a;b'' \<and>
   (occursAtWordStart ''leveloffset=+1,tags=a;b'' ''tag='' \<or>
    occursAtWordStart ''leveloffset=+1,tags=a;b'' ''tags='' \<or>
    occursAtWordStart ''leveloffset=+1,tags=a;b'' ''lines='') \<and>
   (containsSubstring ''leveloffset=+1,tags=a;b'' ''tag='' \<or>
    containsSubstring ''leveloffset=+1,tags=a;b'' ''tags='' \<or>
    containsSubstring ''leveloffset=+1,tags=a;b'' ''lines='') \<and>
   findAsciidocLinks ''include::a.adoc[leveloffset=+1,tags=a;b]'' =
     [\<lparr>ltarget = ''a.adoc'', ltype = IncludePartial\<rparr>]"
proof -
  have h: "hasPartialIncludeAttributes ''leveloffset=+1,tags=a;b''" by code_simp
  have l: "findAsciidocLinks ''include::a.adoc[leveloffset=+1,tags=a;b]'' =
     [\<lparr>ltarget = ''a.adoc'', ltype = IncludePartial\<rparr>]"
    by code_simp
  from include_classification [of "''leveloffset=+1,tags=a;b''" "[]"] h l
  show ?thesis by blast
qed

section \<open>The identifier\<close>

text \<open>
  Claim C4, as stated, fails for the empty prefix, on POSIX and on Windows alike:
  \<^verbatim>\<open>.adoc\<close> and \<^verbatim>\<open>.asciidoc\<close> are names without extension for \<^verbatim>\<open>path.extname\<close>, so
  nothing is stripped and the two ids are the digests of two different strings.
\<close>

theorem id_path_dotfile_counterexample:
  "id_path exampleHost ([] @ ''.adoc'') \<noteq> id_path exampleHost ([] @ ''.asciidoc'') \<and>
   id_path exampleWin32Host ([] @ ''.adoc'') \<noteq> id_path exampleWin32Host ([] @ ''.asciidoc'')"
  by (simp add: id_path_def pathWithoutExt_def exampleHost_def exampleWin32Host_def
      posixExtname_dot_adoc posixExtname_dot_asciidoc win32Extname_dot_adoc
      win32Extname_dot_asciidoc md5_dot_adoc md5_dot_asciidoc)

text \<open>
  Claim C4, amended. The id is the MD5 digest of the path without the extension that the
  platform's \<^verbatim>\<open>path.extname\<close> reports, and of nothing else. Paths that are identical
  after stripping have the same id. Two ids are equal exactly when the digests of the
  stripped paths are, which does not make the stripped paths equal: the digest has 32
  hexadecimal digits, so on both platforms there are paths with different stripped forms
  and the same id. On POSIX, for every non-empty \<open>p\<close> that does not end with a slash,
  \<open>p\<close> is the stripped form of both \<open>p @ ''.adoc''\<close> and \<open>p @ ''.asciidoc''\<close>, and the two
  have the same id. On Windows the same holds for every non-empty \<open>p\<close> that ends neither
  with a slash nor with a backslash and is more than a drive prefix.
\<close>

theorem id_path_contract:
  "(pathWithoutExt h p1 = pathWithoutExt h p2 \<longrightarrow> id_path h p1 = id_path h p2) \<and>
   (id_path h p1 = id_path h p2 \<longleftrightarrow> md5 (pathWithoutExt h p1) = md5 (pathWithoutExt h p2)) \<and>
   (extname h = posixExtname \<and> p \<noteq> [] \<and> last p \<noteq> CHR ''/'' \<longrightarrow>
      pathWithoutExt h (p @ ''.adoc'') = p \<and> pathWithoutExt h (p @ ''.asciidoc'') = p \<and>
      id_path h (p @ ''.adoc'') = id_path h (p @ ''.asciidoc'')) \<and>
   (extname h = win32Extname \<and> p \<noteq> [] \<and> last p \<noteq> CHR ''/'' \<and> last p \<noteq> CHR 0x5C \<and>
    (hasDrivePrefix p \<longrightarrow> 2 < length p) \<longrightarrow>
      pathWithoutExt h (p @ ''.adoc'') = p \<and> pathWithoutExt h (p @ ''.asciidoc'') = p \<and>
      id_path h (p @ ''.adoc'') = id_path h (p @ ''.asciidoc'')) \<and>
   (extname h = posixExtname \<or> extname h = win32Extname \<longrightarrow>
      (\<exists>q1 q2. pathWithoutExt h q1 \<noteq> pathWithoutExt h q2 \<and> id_path h q1 = id_path h q2))"
proof -
  have posix: "extname h = posixExtname \<and> p \<noteq> [] \<and> last p \<noteq> CHR ''/'' \<longrightarrow>
      pathWithoutExt h (p @ ''.adoc'') = p \<and> pathWithoutExt h (p @ ''.asciidoc'') = p"
    using pathWithoutExt_posix [of h p "''adoc''"] pathWithoutExt_posix [of h p "''asciidoc''"]
    by simp
  have win: "extname h = win32Extname \<and> p \<noteq> [] \<and> last p \<noteq> CHR ''/'' \<and> last p \<noteq> CHR 0x5C \<and>
      (hasDrivePrefix p \<longrightarrow> 2 < length p) \<longrightarrow>
      pathWithoutExt h (p @ ''.adoc'') = p \<and> pathWithoutExt h (p @ ''.asciidoc'') = p"
    using pathWithoutExt_win32 [of h p "''adoc''"] pathWithoutExt_win32 [of h p "''asciidoc''"]
    by simp
  have coll: "extname h = posixExtname \<or> extname h = win32Extname \<longrightarrow>
      (\<exists>q1 q2. pathWithoutExt h q1 \<noteq> pathWithoutExt h q2 \<and> id_path h q1 = id_path h q2)"
    using id_path_collision [of h] by blast
  have a: "pathWithoutExt h p1 = pathWithoutExt h p2 \<longrightarrow> id_path h p1 = id_path h p2"
    by (simp add: id_path_def)
  have b: "id_path h p1 = id_path h p2 \<longleftrightarrow> md5 (pathWithoutExt h p1) = md5 (pathWithoutExt h p2)"
    by (simp add: id_path_def)
  have posix': "extname h = posixExtname \<and> p \<noteq> [] \<and> last p \<noteq> CHR ''/'' \<longrightarrow>
      id_path h (p @ ''.adoc'') = id_path h (p @ ''.asciidoc'')"
    using posix by (simp add: id_path_def)
  have win': "extname h = win32Extname \<and> p \<noteq> [] \<and> last p \<noteq> CHR ''/'' \<and> last p \<noteq> CHR 0x5C \<and>
      (hasDrivePrefix p \<longrightarrow> 2 < length p) \<longrightarrow>
      id_path h (p @ ''.adoc'') = id_path h (p @ ''.asciidoc'')"
    using win by (simp add: id_path_def)
  from a b posix posix' win win' coll show ?thesis by blast
qed

theorem id_path_contract_witness:
  "extname exampleHost = posixExtname \<and>
   ''/docs/a'' \<noteq> [] \<and> last ''/docs/a'' \<noteq> CHR ''/'' \<and>
   pathWithoutExt exampleHost (''/docs/a'' @ ''.adoc'') = ''/docs/a'' \<and>
   id_path exampleHost (''/docs/a'' @ ''.adoc'') = id_path exampleHost (''/docs/a'' @ ''.asciidoc'') \<and>
   extname exampleWin32Host = win32Extname \<and>
   hasDrivePrefix (''C:'' @ CHR 0x5C # ''docs'' @ CHR 0x5C # ''a'') \<and>
   2 < length (''C:'' @ CHR 0x5C # ''docs'' @ CHR 0x5C # ''a'') \<and>
   pathWithoutExt exampleWin32Host ((''C:'' @ CHR 0x5C # ''docs'' @ CHR 0x5C # ''a'') @ ''.adoc'') =
     ''C:'' @ CHR 0x5C # ''docs'' @ CHR 0x5C # ''a'' \<and>
   id_path exampleWin32Host ((''C:'' @ CHR 0x5C # ''docs'' @ CHR 0x5C # ''a'') @ ''.adoc'') =
   id_path exampleWin32Host ((''C:'' @ CHR 0x5C # ''docs'' @ CHR 0x5C # ''a'') @ ''.asciidoc'') \<and>
   pathWithoutExt exampleHost ''/docs/a.adoc'' = pathWithoutExt exampleHost ''/docs/a.asciidoc'' \<and>
   id_path exampleHost ''/docs/a.adoc'' = id_path exampleHost ''/docs/a.asciidoc'' \<and>
   (\<exists>q1 q2. pathWithoutExt exampleHost q1 \<noteq> pathWithoutExt exampleHost q2 \<and>
      id_path exampleHost q1 = id_path exampleHost q2) \<and>
   (\<exists>q1 q2. pathWithoutExt exampleWin32Host q1 \<noteq> pathWithoutExt exampleWin32Host q2 \<and>
      id_path exampleWin32Host q1 = id_path exampleWin32Host q2)"
proof -
  let ?w = "''C:'' @ CHR 0x5C # ''docs'' @ CHR 0x5C # ''a''"
  have e1: "extname exampleHost = posixExtname" by (simp add: exampleHost_def)
  have e2: "extname exampleWin32Host = win32Extname"
    by (simp add: exampleWin32Host_def)
  have h1: "''/docs/a'' \<noteq> [] \<and> last ''/docs/a'' \<noteq> CHR ''/''" by simp
  have d: "hasDrivePrefix ?w" by (simp add: hasDrivePrefix_def isWindowsDeviceRoot_def)
  have l: "2 < length ?w" by simp
  have h2: "?w \<noteq> [] \<and> last ?w \<noteq> CHR ''/'' \<and> last ?w \<noteq> CHR 0x5C" by simp
  note t1 = id_path_contract [of exampleHost _ _ "''/docs/a''"]
  note p1 = mp [OF t1 [THEN conjunct2, THEN conjunct2, THEN conjunct1]]
  have r1: "pathWithoutExt exampleHost (''/docs/a'' @ ''.adoc'') = ''/docs/a'' \<and>
      pathWithoutExt exampleHost (''/docs/a'' @ ''.asciidoc'') = ''/docs/a'' \<and>
      id_path exampleHost (''/docs/a'' @ ''.adoc'') = id_path exampleHost (''/docs/a'' @ ''.asciidoc'')"
    by (rule p1) (use e1 h1 in blast)
  note t2 = id_path_contract [of exampleWin32Host _ _ ?w]
  note p2 = mp [OF t2 [THEN conjunct2, THEN conjunct2, THEN conjunct2, THEN conjunct1]]
  have r2: "pathWithoutExt exampleWin32Host (?w @ ''.adoc'') = ?w \<and>
      pathWithoutExt exampleWin32Host (?w @ ''.asciidoc'') = ?w \<and>
      id_path exampleWin32Host (?w @ ''.adoc'') = id_path exampleWin32Host (?w @ ''.asciidoc'')"
    by (rule p2) (use e2 h2 l in blast)
  have s: "pathWithoutExt exampleHost ''/docs/a.adoc'' =
           pathWithoutExt exampleHost ''/docs/a.asciidoc''"
    using r1 by simp
  note t3 = id_path_contract [of exampleHost "''/docs/a.adoc''" "''/docs/a.asciidoc''"]
  have r3: "id_path exampleHost ''/docs/a.adoc'' = id_path exampleHost ''/docs/a.asciidoc''"
    by (rule mp [OF t3 [THEN conjunct1] s])
  have r4: "\<exists>q1 q2. pathWithoutExt exampleHost q1 \<noteq> pathWithoutExt exampleHost q2 \<and>
      id_path exampleHost q1 = id_path exampleHost q2"
    by (rule mp [OF t1 [THEN conjunct2, THEN conjunct2, THEN conjunct2, THEN conjunct2]])
       (rule disjI1 [OF e1])
  have r5: "\<exists>q1 q2. pathWithoutExt exampleWin32Host q1 \<noteq> pathWithoutExt exampleWin32Host q2 \<and>
      id_path exampleWin32Host q1 = id_path exampleWin32Host q2"
    by (rule mp [OF t2 [THEN conjunct2, THEN conjunct2, THEN conjunct2, THEN conjunct2]])
       (rule disjI2 [OF e2])
  have c1: "extname exampleHost = posixExtname \<and>
      ''/docs/a'' \<noteq> [] \<and> last ''/docs/a'' \<noteq> CHR ''/'' \<and>
      pathWithoutExt exampleHost (''/docs/a'' @ ''.adoc'') = ''/docs/a'' \<and>
      id_path exampleHost (''/docs/a'' @ ''.adoc'') = id_path exampleHost (''/docs/a'' @ ''.asciidoc'')"
    using e1 h1 r1 by blast
  have c2: "extname exampleWin32Host = win32Extname \<and> hasDrivePrefix ?w \<and> 2 < length ?w \<and>
      pathWithoutExt exampleWin32Host (?w @ ''.adoc'') = ?w \<and>
      id_path exampleWin32Host (?w @ ''.adoc'') = id_path exampleWin32Host (?w @ ''.asciidoc'')"
    using e2 d l r2 by blast
  from c1 c2 s r3 r4 r5 show ?thesis by (simp only: simp_thms)
qed

section \<open>The directory scan\<close>

text \<open>
  Claim C8, as stated, fails. In the example corpus the callback for \<^verbatim>\<open>/docs/a.adoc\<close>
  rejects at turn 1 and the one for \<^verbatim>\<open>/docs/notes.adoc\<close>, which has been launched
  too, fulfils at turn 2: the scan rejects at turn 1, before that invocation has
  settled.
\<close>

theorem parseDirectory_fail_fast_counterexample:
  "(''/docs/notes.adoc'', exampleCallback 0 ''/docs/notes.adoc'')
     \<in> set (launch exampleHost exampleCallback 0) \<and>
   isl (outcome (parseDirectory exampleHost exampleCallback 0)) \<and>
   at (parseDirectory exampleHost exampleCallback 0) <
     at (exampleCallback 0 ''/docs/notes.adoc'')"
  by (simp add: launch_example parseDirectory_def promiseAll_def exampleCallback_def)

text \<open>
  Claim C8, amended. \<open>parseDirectory\<close> calls the callback, all in the turn of its loop
  and in the order of the listing, exactly for the files that \<open>findFiles\<close> returns for
  the glob pattern of the configured file types and whose base name does not start with
  a dot. When every invocation fulfils, the scan fulfils, and no earlier than any of
  them. When some invocation rejects, the scan rejects, and it does so with the
  settlement of a rejecting invocation that is the earliest of the rejections, whether
  or not the other invocations have settled by then.
\<close>

theorem parseDirectory_settlement:
  "(let ps = launch h fileCallback now;
        r = parseDirectory h fileCallback now
    in map fst ps =
         filter (\<lambda>file. \<not> startsWith (basename h file) ''.'')
           (findFiles h (''**/*{'' @ join '','' (map (\<lambda>f. ''.'' @ f) (getFileTypesSetting h)) @ ''}'')) \<and>
       (\<forall>fp \<in> set ps. snd fp = fileCallback now (fst fp)) \<and>
       ((\<forall>fp \<in> set ps. \<not> isl (outcome (snd fp))) \<longrightarrow>
          outcome r = Inr () \<and> (\<forall>fp \<in> set ps. at (snd fp) \<le> at r)) \<and>
       ((\<exists>fp \<in> set ps. isl (outcome (snd fp))) \<longrightarrow>
          r \<in> snd ` set ps \<and> isl (outcome r) \<and>
          (\<forall>fp \<in> set ps. isl (outcome (snd fp)) \<longrightarrow> at r \<le> at (snd fp))))"
proof -
  let ?ps = "launch h fileCallback now"
  have a: "map fst ?ps =
      filter (\<lambda>file. \<not> startsWith (basename h file) ''.'')
        (findFiles h (''**/*{'' @ join '','' (map (\<lambda>f. ''.'' @ f) (getFileTypesSetting h)) @ ''}''))"
    by (simp add: launch_def Let_def o_def)
  have b: "\<forall>fp \<in> set ?ps. snd fp = fileCallback now (fst fp)"
    by (auto simp: launch_def Let_def)
  have c: "(\<forall>fp \<in> set ?ps. \<not> isl (outcome (snd fp))) \<longrightarrow>
      outcome (parseDirectory h fileCallback now) = Inr () \<and>
      (\<forall>fp \<in> set ?ps. at (snd fp) \<le> at (parseDirectory h fileCallback now))"
    using promiseAll_fulfilled [of "map snd ?ps" now] by (simp add: parseDirectory_def)
  have d: "(\<exists>fp \<in> set ?ps. isl (outcome (snd fp))) \<longrightarrow>
      parseDirectory h fileCallback now \<in> snd ` set ?ps \<and>
      isl (outcome (parseDirectory h fileCallback now)) \<and>
      (\<forall>fp \<in> set ?ps. isl (outcome (snd fp)) \<longrightarrow>
         at (parseDirectory h fileCallback now) \<le> at (snd fp))"
    using promiseAll_rejected [of "map snd ?ps" now] by (simp add: parseDirectory_def)
  from a b c d show ?thesis unfolding Let_def by blast
qed

theorem parseDirectory_settlement_witness:
  "outcome (parseDirectory exampleHost fulfillingCallback 0) = Inr () \<and>
   at (fulfillingCallback 0 ''/docs/notes.adoc'')
     \<le> at (parseDirectory exampleHost fulfillingCallback 0) \<and>
   isl (outcome (parseDirectory exampleHost exampleCallback 0)) \<and>
   at (parseDirectory exampleHost exampleCallback 0) \<le> at (exampleCallback 0 ''/docs/a.adoc'')"
proof -
  have ok: "\<forall>fp \<in> set (launch exampleHost fulfillingCallback 0). \<not> isl (outcome (snd fp))"
    by (simp add: launch_example fulfillingCallback_def)
  have bad: "\<exists>fp \<in> set (launch exampleHost exampleCallback 0). isl (outcome (snd fp))"
    by (simp add: launch_example exampleCallback_def)
  have m1: "(''/docs/notes.adoc'', fulfillingCallback 0 ''/docs/notes.adoc'')
      \<in> set (launch exampleHost fulfillingCallback 0)"
    by (simp add: launch_example)
  have m2: "(''/docs/a.adoc'', exampleCallback 0 ''/docs/a.adoc'')
      \<in> set (launch exampleHost exampleCallback 0)"
    by (simp add: launch_example)
  have r: "isl (outcome (snd (''/docs/a.adoc'', exampleCallback 0 ''/docs/a.adoc'')))"
    by (simp add: exampleCallback_def)
  note t1 = parseDirectory_settlement [of exampleHost fulfillingCallback 0, unfolded Let_def]
  note f1 = mp [OF t1 [THEN conjunct2, THEN conjunct2, THEN conjunct1] ok]
  note t2 = parseDirectory_settlement [of exampleHost exampleCallback 0, unfolded Let_def]
  note f2 = mp [OF t2 [THEN conjunct2, THEN conjunct2, THEN conjunct2] bad]
  have "at (snd (''/docs/notes.adoc'', fulfillingCallback 0 ''/docs/notes.adoc''))
      \<le> at (parseDirectory exampleHost fulfillingCallback 0)"
    by (rule bspec [OF f1 [THEN conjunct2] m1])
  moreover have "at (parseDirectory exampleHost exampleCallback 0)
      \<le> at (snd (''/docs/a.adoc'', exampleCallback 0 ''/docs/a.adoc''))"
    by (rule mp [OF bspec [OF f2 [THEN conjunct2, THEN conjunct2] m2] r])
  ultimately show ?thesis
    using f1 [THEN conjunct1] f2 [THEN conjunct2, THEN conjunct1] by simp
qed

section \<open>The view's test for an unchanged snapshot\<close>

text \<open>
  Claim C9 does not hold of the code. \<open>sameNodes\<close> compares the label it has stored for
  an id with the property \<^verbatim>\<open>title\<close> of the node of the next snapshot, which the nodes
  do not have, so it answers true only when both snapshots are empty. For the snapshot
  with the single node \<open>exampleNode\<close> and no edge, received twice, \<open>sameNodes\<close> is
  false although \<open>sameEdges\<close> is true, and the handler calls \<^verbatim>\<open>restart\<close>.
\<close>

theorem sameNodes_rejects_identical_snapshot:
  "(sameNodes previous next \<longleftrightarrow> previous = [] \<and> next = []) \<and>
   sameNodes [exampleNode] [exampleNode] = False \<and>
   sameEdges [] [] = True \<and>
   restarts (refresh link \<lparr>nodesData = [exampleNode], linksData = [], restarts = 0\<rparr>
               ([exampleNode], [])) = 1"
  by (simp add: sameNodes_iff refresh_def sameEdges_def)

end
